theory Spec2Isabelle
  imports Main "HOL-Library.Word" "HOL-Library.List_Lexorder" "HOL-Library.AList"
begin

section \<open>Strings and errors\<close>

text \<open>
  A JavaScript string is a sequence of 16-bit code units, and \<open><\<close> on strings compares
  code units lexicographically (a proper prefix is smaller), which is the order of
  \<open>HOL-Library.List_Lexorder\<close> on \<open>16 word list\<close>. \<open>js\<close> writes an ASCII literal.
\<close>

type_synonym codeunit = "16 word"
type_synonym jsstring = "codeunit list"

definition js :: "string \<Rightarrow> jsstring" where
  "js s = map of_char s"

text \<open>
  The errors of the program: \<open>new Error(message)\<close> of \<open>putPost\<close>, the \<open>URIError\<close> of
  \<open>encodeURIComponent\<close> and \<open>decodeURIComponent\<close>, the not-found error of \<open>level.get\<close>,
  and any other failure the store reports (\<open>StoreFailure\<close>, with a tag).
\<close>

datatype error = Error string | URIError | NotFoundError | StoreFailure nat

section \<open>The key encoding\<close>

subsection \<open>encodeURIComponent\<close>

text \<open>
  ECMA-262, Encode with the unescaped set of \<open>encodeURIComponent\<close>: letters, digits and
  \<open>- _ . ! ~ * ' ( )\<close> are copied; any other code point is written as the \<open>%XX\<close> escapes
  (upper-case hexadecimal) of its UTF-8 octets; a surrogate code unit that is not part of
  a pair raises \<open>URIError\<close>.
\<close>

definition uriUnescaped :: "codeunit \<Rightarrow> bool" where
  "uriUnescaped c \<longleftrightarrow>
     (0x41 \<le> c \<and> c \<le> 0x5A) \<or> (0x61 \<le> c \<and> c \<le> 0x7A) \<or> (0x30 \<le> c \<and> c \<le> 0x39) \<or>
     c = 0x2D \<or> c = 0x5F \<or> c = 0x2E \<or> c = 0x21 \<or> c = 0x7E \<or>
     c = 0x2A \<or> c = 0x27 \<or> c = 0x28 \<or> c = 0x29"

definition isLeadSurrogate :: "codeunit \<Rightarrow> bool" where
  "isLeadSurrogate c \<longleftrightarrow> 0xD800 \<le> c \<and> c \<le> 0xDBFF"

definition isTrailSurrogate :: "codeunit \<Rightarrow> bool" where
  "isTrailSurrogate c \<longleftrightarrow> 0xDC00 \<le> c \<and> c \<le> 0xDFFF"

definition surrogatePair :: "codeunit \<Rightarrow> codeunit \<Rightarrow> nat" where
  "surrogatePair lead trail = (unat lead - 0xD800) * 0x400 + (unat trail - 0xDC00) + 0x10000"

definition utf8Octets :: "nat \<Rightarrow> nat list" where
  "utf8Octets cp =
     (if cp < 0x80 then [cp]
      else if cp < 0x800 then [0xC0 + cp div 0x40, 0x80 + cp mod 0x40]
      else if cp < 0x10000 then
        [0xE0 + cp div 0x1000, 0x80 + cp div 0x40 mod 0x40, 0x80 + cp mod 0x40]
      else
        [0xF0 + cp div 0x40000, 0x80 + cp div 0x1000 mod 0x40,
         0x80 + cp div 0x40 mod 0x40, 0x80 + cp mod 0x40])"

definition hexDigit :: "nat \<Rightarrow> codeunit" where
  "hexDigit d = (if d < 10 then of_nat (0x30 + d) else of_nat (0x41 + (d - 10)))"

definition percent :: "nat \<Rightarrow> jsstring" where
  "percent octet = [0x25, hexDigit (octet div 16), hexDigit (octet mod 16)]"

definition escape :: "nat \<Rightarrow> jsstring" where
  "escape cp = concat (map percent (utf8Octets cp))"

fun encodeURIComponent :: "jsstring \<Rightarrow> error + jsstring" where
  "encodeURIComponent [] = Inr []"
| "encodeURIComponent (c # cs) =
     (if uriUnescaped c then
        (case encodeURIComponent cs of Inl e \<Rightarrow> Inl e | Inr r \<Rightarrow> Inr (c # r))
      else if isTrailSurrogate c then Inl URIError
      else if isLeadSurrogate c then
        (case cs of
           [] \<Rightarrow> Inl URIError
         | d # ds \<Rightarrow>
             if isTrailSurrogate d then
               (case encodeURIComponent ds of
                  Inl e \<Rightarrow> Inl e
                | Inr r \<Rightarrow> Inr (escape (surrogatePair c d) @ r))
             else Inl URIError)
      else
        (case encodeURIComponent cs of
           Inl e \<Rightarrow> Inl e
         | Inr r \<Rightarrow> Inr (escape (unat c) @ r)))"

subsection \<open>decodeURIComponent\<close>

text \<open>
  ECMA-262, Decode with an empty reserved set: a code unit other than \<open>%\<close> is copied; a
  \<open>%\<close> must start \<open>%XX\<close> with two hexadecimal digits; an octet below \<open>0x80\<close> is that
  character; otherwise the octet's leading one bits give the length of a UTF-8 sequence
  (2 to 4), whose continuation octets are read from further \<open>%XX\<close> escapes, and the
  sequence must be the UTF-8 encoding of a code point (not overlong, not a surrogate, at
  most \<open>0x10FFFF\<close>). Everything else raises \<open>URIError\<close>.
\<close>

definition hexValue :: "codeunit \<Rightarrow> nat option" where
  "hexValue c =
     (if 0x30 \<le> c \<and> c \<le> 0x39 then Some (unat c - 0x30)
      else if 0x41 \<le> c \<and> c \<le> 0x46 then Some (unat c - 0x41 + 10)
      else if 0x61 \<le> c \<and> c \<le> 0x66 then Some (unat c - 0x61 + 10)
      else None)"

fun readOctet :: "jsstring \<Rightarrow> (nat \<times> jsstring) option" where
  "readOctet (p # h # l # rest) =
     (if p = 0x25 then
        (case hexValue h of
           None \<Rightarrow> None
         | Some a \<Rightarrow> (case hexValue l of None \<Rightarrow> None | Some b \<Rightarrow> Some (16 * a + b, rest)))
      else None)"
| "readOctet _ = None"

fun readContinuation :: "nat \<Rightarrow> jsstring \<Rightarrow> (nat list \<times> jsstring) option" where
  "readContinuation 0 s = Some ([], s)"
| "readContinuation (Suc n) s =
     (case readOctet s of
        None \<Rightarrow> None
      | Some (b, rest) \<Rightarrow>
          if 0x80 \<le> b \<and> b < 0xC0 then
            (case readContinuation n rest of
               None \<Rightarrow> None
             | Some (bs, rest') \<Rightarrow> Some (b # bs, rest'))
          else None)"

definition sequenceLength :: "nat \<Rightarrow> nat" where
  "sequenceLength b =
     (if b < 0xC0 then 1 else if b < 0xE0 then 2 else if b < 0xF0 then 3
      else if b < 0xF8 then 4 else 5)"

fun utf8CodePoint :: "nat list \<Rightarrow> nat option" where
  "utf8CodePoint [a, b] =
     (let cp = (a - 0xC0) * 0x40 + (b - 0x80) in if 0x80 \<le> cp then Some cp else None)"
| "utf8CodePoint [a, b, c] =
     (let cp = (a - 0xE0) * 0x1000 + (b - 0x80) * 0x40 + (c - 0x80)
      in if 0x800 \<le> cp \<and> \<not> (0xD800 \<le> cp \<and> cp \<le> 0xDFFF) then Some cp else None)"
| "utf8CodePoint [a, b, c, d] =
     (let cp = (a - 0xF0) * 0x40000 + (b - 0x80) * 0x1000 + (c - 0x80) * 0x40 + (d - 0x80)
      in if 0x10000 \<le> cp \<and> cp \<le> 0x10FFFF then Some cp else None)"
| "utf8CodePoint _ = None"

definition codeUnits :: "nat \<Rightarrow> jsstring" where
  "codeUnits cp =
     (if cp < 0x10000 then [of_nat cp]
      else [of_nat (0xD800 + (cp - 0x10000) div 0x400),
            of_nat (0xDC00 + (cp - 0x10000) mod 0x400)])"

lemma readOctet_shorter: "readOctet s = Some (b, rest) \<Longrightarrow> length rest < length s"
  by (induction s rule: readOctet.induct) (auto split: if_splits option.splits)

lemma readContinuation_shorter:
  "readContinuation n s = Some (bs, rest) \<Longrightarrow> length rest \<le> length s"
proof (induction n arbitrary: s bs)
  case 0
  then show ?case by simp
next
  case (Suc n)
  then show ?case
    by (fastforce split: option.splits if_splits dest: readOctet_shorter)
qed

function decodeURIComponent :: "jsstring \<Rightarrow> error + jsstring" where
  "decodeURIComponent [] = Inr []"
| "decodeURIComponent (c # cs) =
     (if c \<noteq> 0x25 then
        (case decodeURIComponent cs of Inl e \<Rightarrow> Inl e | Inr r \<Rightarrow> Inr (c # r))
      else
        (case readOctet (c # cs) of
           None \<Rightarrow> Inl URIError
         | Some (b, rest) \<Rightarrow>
             if b < 0x80 then
               (case decodeURIComponent rest of
                  Inl e \<Rightarrow> Inl e
                | Inr r \<Rightarrow> Inr (of_nat b # r))
             else if sequenceLength b = 1 \<or> 4 < sequenceLength b then Inl URIError
             else
               (case readContinuation (sequenceLength b - 1) rest of
                  None \<Rightarrow> Inl URIError
                | Some (bs, rest') \<Rightarrow>
                    (case utf8CodePoint (b # bs) of
                       None \<Rightarrow> Inl URIError
                     | Some cp \<Rightarrow>
                         (case decodeURIComponent rest' of
                            Inl e \<Rightarrow> Inl e
                          | Inr r \<Rightarrow> Inr (codeUnits cp @ r))))))"
  by pat_completeness auto
termination
proof (relation "measure length")
  show "wf (measure length)" by simp
next
  fix c :: codeunit and cs
  show "(cs, c # cs) \<in> measure length" by simp
next
  fix c :: codeunit and cs x2 b rest
  assume "readOctet (c # cs) = Some x2" "(b, rest) = x2"
  then show "(rest, c # cs) \<in> measure length"
    using readOctet_shorter [of "c # cs" b rest] by simp
next
  fix c :: codeunit and cs x2 b rest x2a bs rest' cp
  assume "readOctet (c # cs) = Some x2" "(b, rest) = x2"
    "readContinuation (sequenceLength b - 1) rest = Some x2a" "(bs, rest') = x2a"
  then show "(rest', c # cs) \<in> measure length"
    using readOctet_shorter [of "c # cs" b rest]
      readContinuation_shorter [of "sequenceLength b - 1" rest bs rest'] by simp
qed

subsection \<open>options.keyEncoding\<close>

text \<open>
  \<open>encode: argument.map(encodeURIComponent).join('/')\<close> and
  \<open>decode: argument.split('/').map(decodeURIComponent)\<close>. \<open>mapResult\<close> is
  \<open>Array.prototype.map\<close> with a function that may raise: the first error ends the map.
  \<open>join\<close> and \<open>split\<close> are the two string methods; \<open>''.split('/')\<close> is \<open>['']\<close>.
\<close>

fun mapResult :: "('a \<Rightarrow> error + 'b) \<Rightarrow> 'a list \<Rightarrow> error + 'b list" where
  "mapResult f [] = Inr []"
| "mapResult f (x # xs) =
     (case f x of
        Inl e \<Rightarrow> Inl e
      | Inr y \<Rightarrow> (case mapResult f xs of Inl e \<Rightarrow> Inl e | Inr ys \<Rightarrow> Inr (y # ys)))"

fun join :: "jsstring \<Rightarrow> jsstring list \<Rightarrow> jsstring" where
  "join sep [] = []"
| "join sep [x] = x"
| "join sep (x # y # ys) = x @ sep @ join sep (y # ys)"

fun split :: "codeunit \<Rightarrow> jsstring \<Rightarrow> jsstring list" where
  "split sep [] = [[]]"
| "split sep (c # cs) =
     (if c = sep then [] # split sep cs
      else (case split sep cs of [] \<Rightarrow> [[c]] | piece # pieces \<Rightarrow> (c # piece) # pieces))"

definition encode :: "jsstring list \<Rightarrow> error + jsstring" where
  "encode argument =
     (case mapResult encodeURIComponent argument of
        Inl e \<Rightarrow> Inl e
      | Inr parts \<Rightarrow> Inr (join (js ''/'') parts))"

definition decode :: "jsstring \<Rightarrow> error + jsstring list" where
  "decode argument = mapResult decodeURIComponent (split 0x2F argument)"

section \<open>The data store\<close>

subsection \<open>Posts and stored values\<close>

text \<open>
  A post is an object with the string properties \<open>title\<close>, \<open>date\<close>, \<open>author\<close>, \<open>slug\<close>
  and \<open>text\<close>. The date index stores the first four (\<open>summary\<close>): \<open>summary.truncate\<close>
  of a post, the test's \<open>withoutTitle\<close>, which deletes \<open>text\<close>. The values the program
  stores are the placeholder string, such a summary, or a whole post; the JSON value
  encoding gives back what was stored.
\<close>

record summary =
  title :: jsstring
  date :: jsstring
  author :: jsstring
  slug :: jsstring

record post = summary +
  "text" :: jsstring

datatype val = VString jsstring | VSummary summary | VPost post

type_synonym key = "jsstring list"

subsection \<open>LevelUP over memdown, with level-exists and level-lock\<close>

text \<open>
  The store keeps one value per encoded key, in the order of the encoded keys; an
  association list read through \<open>map_of\<close> holds its contents. \<open>level-lock\<close> keeps the
  keys that are write-locked. It names a lock by the encoded key, so it raises for a key
  that does not encode; the locks it holds are kept here as the keys themselves (the
  encoding is one-to-one on the keys that are not empty).
\<close>

record level =
  store :: "(jsstring \<times> val) list"
  locks :: "key list"

definition emptyLevel :: level where
  "emptyLevel = \<lparr>store = [], locks = []\<rparr>"

text \<open>
  What a call into the store does: it raises (the key encoding raised, and nothing in the
  program catches it), it calls back with an error, or it calls back with a result.
\<close>

datatype 'a reply = Thrown error | Failed error | Ok 'a

text \<open>
  \<open>lock(level, key, 'w')\<close>: it encodes the key, which may raise; then nothing when the
  key is locked, else the key is locked.
\<close>

definition lock :: "level \<Rightarrow> key \<Rightarrow> error + level option" where
  "lock lvl k =
     (case encode k of
        Inl e \<Rightarrow> Inl e
      | Inr ek \<Rightarrow>
          Inr (if k \<in> set (locks lvl) then None else Some (lvl\<lparr>locks := k # locks lvl\<rparr>)))"

definition unlock :: "level \<Rightarrow> key \<Rightarrow> level" where
  "unlock lvl k = lvl\<lparr>locks := removeAll k (locks lvl)\<rparr>"

text \<open>
  The store's operations take the failure the substrate reports, if any, as \<open>fault\<close>
  (memdown reports none; the program has a branch for each).
\<close>

definition level_exists :: "error option \<Rightarrow> (jsstring \<times> val) list \<Rightarrow> key \<Rightarrow> bool reply" where
  "level_exists fault s k =
     (case encode k of
        Inl e \<Rightarrow> Thrown e
      | Inr ek \<Rightarrow> (case fault of Some e \<Rightarrow> Failed e | None \<Rightarrow> Ok (map_of s ek \<noteq> None)))"

definition level_get :: "error option \<Rightarrow> (jsstring \<times> val) list \<Rightarrow> key \<Rightarrow> val reply" where
  "level_get fault s k =
     (case encode k of
        Inl e \<Rightarrow> Thrown e
      | Inr ek \<Rightarrow>
          (case fault of
             Some e \<Rightarrow> Failed e
           | None \<Rightarrow> (case map_of s ek of None \<Rightarrow> Failed NotFoundError | Some v \<Rightarrow> Ok v)))"

definition encodeOp :: "key \<times> val \<Rightarrow> error + jsstring \<times> val" where
  "encodeOp kv = (case encode (fst kv) of Inl e \<Rightarrow> Inl e | Inr ek \<Rightarrow> Inr (ek, snd kv))"

fun applyPuts :: "(jsstring \<times> val) list \<Rightarrow> (jsstring \<times> val) list \<Rightarrow> (jsstring \<times> val) list" where
  "applyPuts s [] = s"
| "applyPuts s (kv # kvs) = applyPuts (AList.update (fst kv) (snd kv) s) kvs"

text \<open>\<open>level.batch\<close> of put operations: all of them are applied, or none.\<close>

definition level_batch ::
  "error option \<Rightarrow> (jsstring \<times> val) list \<Rightarrow> (key \<times> val) list \<Rightarrow> (jsstring \<times> val) list reply" where
  "level_batch fault s ops =
     (case mapResult encodeOp ops of
        Inl e \<Rightarrow> Thrown e
      | Inr puts \<Rightarrow> (case fault of Some e \<Rightarrow> Failed e | None \<Rightarrow> Ok (applyPuts s puts)))"

section \<open>Storing posts\<close>

text \<open>
  \<open>putPost\<close> runs in three pieces: the call itself, up to \<open>level.exists\<close>; the callback
  of \<open>level.exists\<close>; the callback of \<open>level.batch\<close>. Each piece returns the store and
  lock table it leaves, what it did (\<open>event\<close>), and whether the call waits for another
  callback. The store answers a request when its callback runs. When the key of the post
  does not encode, \<open>lock\<close> raises and so does the call (\<open>Threw\<close>), before it has locked
  or asked the store anything.
\<close>

datatype event =
    Locked key
  | ExistsCalled key
  | BatchCalled "(key \<times> val) list"
  | Unlocked key
  | Callback "error option"
  | Threw error

datatype phase = Checking | Writing | Finished

record faults =
  existsFault :: "error option"
  batchFault :: "error option"

definition noFaults :: faults where
  "noFaults = \<lparr>existsFault = None, batchFault = None\<rparr>"

definition postKey :: "post \<Rightarrow> key" where
  "postKey p = [js ''posts'', slug p]"

definition batch :: "post \<Rightarrow> (key \<times> val) list" where
  "batch p =
     [([js ''by'', author p, slug p], VString []),
      ([js ''date'', date p, slug p],
       VSummary \<lparr>title = title p, date = date p, author = author p, slug = slug p\<rparr>),
      (postKey p, VPost p)]"

definition putPost_call :: "level \<Rightarrow> post \<Rightarrow> level \<times> event list \<times> phase" where
  "putPost_call lvl p =
     (case lock lvl (postKey p) of
        Inl e \<Rightarrow> (lvl, [Threw e], Finished)
      | Inr None \<Rightarrow> (lvl, [Callback (Some (Error ''Conflict''))], Finished)
      | Inr (Some lvl') \<Rightarrow> (lvl', [Locked (postKey p), ExistsCalled (postKey p)], Checking))"

definition putPost_exists :: "error option \<Rightarrow> level \<Rightarrow> post \<Rightarrow> level \<times> event list \<times> phase" where
  "putPost_exists fault lvl p =
     (case level_exists fault (store lvl) (postKey p) of
        Thrown e \<Rightarrow> (lvl, [Threw e], Finished)
      | Failed e \<Rightarrow> (lvl, [Callback (Some e)], Finished)
      | Ok exists \<Rightarrow>
          if exists then (lvl, [Callback (Some (Error ''Slug already taken''))], Finished)
          else (lvl, [BatchCalled (batch p)], Writing))"

definition putPost_batch :: "error option \<Rightarrow> level \<Rightarrow> post \<Rightarrow> level \<times> event list \<times> phase" where
  "putPost_batch fault lvl p =
     (case level_batch fault (store lvl) (batch p) of
        Thrown e \<Rightarrow> (lvl, [Threw e], Finished)
      | Failed e \<Rightarrow>
          (unlock lvl (postKey p), [Unlocked (postKey p), Callback (Some e)], Finished)
      | Ok s \<Rightarrow>
          (unlock (lvl\<lparr>store := s\<rparr>) (postKey p),
           [Unlocked (postKey p), Callback None], Finished))"

text \<open>One call of \<open>putPost\<close> run to its end with nothing else in between.\<close>

definition putPost :: "faults \<Rightarrow> level \<Rightarrow> post \<Rightarrow> level \<times> event list" where
  "putPost io lvl p =
     (case putPost_call lvl p of
        (l1, t1, Checking) \<Rightarrow>
          (case putPost_exists (existsFault io) l1 p of
             (l2, t2, Writing) \<Rightarrow>
               (case putPost_batch (batchFault io) l2 p of (l3, t3, _) \<Rightarrow> (l3, t1 @ t2 @ t3))
           | (l2, t2, _) \<Rightarrow> (l2, t1 @ t2))
      | (l1, t1, _) \<Rightarrow> (l1, t1))"

subsection \<open>Calls in flight\<close>

text \<open>
  JavaScript runs one piece of \<open>putPost\<close> at a time, and the store answers its requests
  one callback at a time, in any order; so several calls can be in flight. \<open>Begin p\<close> is
  a call \<open>putPost(level, p, callback)\<close>; \<open>Respond i fault\<close> is the store answering the
  request that the \<open>i\<close>-th call waits for, with the failure it reports, if any. The state
  is the store and lock table together with, for each call begun so far, its post, what it
  waits for, and what it has done.
\<close>

type_synonym call = "post \<times> phase \<times> event list"

datatype action = Begin post | Respond nat "error option"

fun act :: "action \<Rightarrow> level \<times> call list \<Rightarrow> level \<times> call list" where
  "act (Begin p) (lvl, calls) =
     (case putPost_call lvl p of (lvl', evs, ph) \<Rightarrow> (lvl', calls @ [(p, ph, evs)]))"
| "act (Respond i fault) (lvl, calls) =
     (if i < length calls then
        (case calls ! i of
           (p, Checking, evs) \<Rightarrow>
             (case putPost_exists fault lvl p of
                (lvl', evs', ph) \<Rightarrow> (lvl', calls[i := (p, ph, evs @ evs')]))
         | (p, Writing, evs) \<Rightarrow>
             (case putPost_batch fault lvl p of
                (lvl', evs', ph) \<Rightarrow> (lvl', calls[i := (p, ph, evs @ evs')]))
         | (p, Finished, evs) \<Rightarrow> (lvl, calls))
      else (lvl, calls))"

definition run :: "action list \<Rightarrow> level \<times> call list \<Rightarrow> level \<times> call list" where
  "run acts sys = foldl (\<lambda>s a. act a s) sys acts"

section \<open>Reading the store\<close>

text \<open>
  \<open>level.createReadStream(options)\<close> hands out the records whose encoded keys lie in
  \<open>[gte, lte]\<close>, in the order of the encoded keys, backwards when \<open>reverse\<close>, at most
  \<open>limit\<close> of them when a limit is given (\<open>None\<close>: the option is absent). Each item
  carries the decoded key when \<open>keys\<close> and the value when \<open>values\<close>. A stream raises
  when a bound does not encode (\<open>Raised\<close>); otherwise it emits \<open>data\<close> for each item, up
  to the first key that does not decode, then \<open>error\<close> for that key or for a failure the
  store reports, if any, and then \<open>end\<close>, also after an \<open>error\<close> (\<open>Events\<close>).
\<close>

record options =
  gte :: key
  lte :: key
  keys :: bool
  "values" :: bool
  limit :: "nat option"
  reverse :: bool

definition records :: "(jsstring \<times> val) list \<Rightarrow> (jsstring \<times> val) list" where
  "records s =
     List.map_filter (\<lambda>k. map_option (Pair k) (map_of s k)) (sort (remdups (map fst s)))"

definition scan :: "(jsstring \<times> val) list \<Rightarrow> jsstring \<Rightarrow> jsstring \<Rightarrow> bool \<Rightarrow> nat option
    \<Rightarrow> (jsstring \<times> val) list" where
  "scan s lo hi backwards lim =
     (let range = filter (\<lambda>kv. lo \<le> fst kv \<and> fst kv \<le> hi) (records s);
          ordered = (if backwards then rev range else range)
      in case lim of None \<Rightarrow> ordered | Some n \<Rightarrow> take n ordered)"

definition item :: "options \<Rightarrow> jsstring \<times> val \<Rightarrow> error + key option \<times> val option" where
  "item opts kv =
     (if keys opts then
        (case decode (fst kv) of
           Inl e \<Rightarrow> Inl e
         | Inr k \<Rightarrow> Inr (Some k, if values opts then Some (snd kv) else None))
      else Inr (None, if values opts then Some (snd kv) else None))"

datatype 'a stream = Raised error | Events "'a list" "error option"

fun deliver :: "('a \<Rightarrow> error + 'b) \<Rightarrow> 'a list \<Rightarrow> 'b list \<times> error option" where
  "deliver f [] = ([], None)"
| "deliver f (x # xs) =
     (case f x of
        Inl e \<Rightarrow> ([], Some e)
      | Inr y \<Rightarrow> (case deliver f xs of (ys, err) \<Rightarrow> (y # ys, err)))"

definition createReadStream ::
  "error option \<Rightarrow> (jsstring \<times> val) list \<Rightarrow> options \<Rightarrow> (key option \<times> val option) stream" where
  "createReadStream fault s opts =
     (case encode (gte opts) of
        Inl e \<Rightarrow> Raised e
      | Inr lo \<Rightarrow>
          (case encode (lte opts) of
             Inl e \<Rightarrow> Raised e
           | Inr hi \<Rightarrow>
               (case fault of
                  Some e \<Rightarrow> Events [] (Some e)
                | None \<Rightarrow>
                    (case deliver (item opts) (scan s lo hi (reverse opts) (limit opts)) of
                       (items, err) \<Rightarrow> Events items err))))"

text \<open>
  The program hands its callback to \<open>once('error', ...)\<close> and calls it again from
  \<open>once('end', ...)\<close>, so a query is the list of the calls of its callback, in order:
  \<open>Failed e\<close> is \<open>callback(e)\<close>, \<open>Ok x\<close> is \<open>callback(null, x)\<close>, and \<open>Thrown e\<close> is an
  exception that nothing catches, in place of a call.
\<close>

definition onError :: "error option \<Rightarrow> 'a reply list" where
  "onError err = (case err of None \<Rightarrow> [] | Some e \<Rightarrow> [Failed e])"

text \<open>
  \<open>async.map(slugs, getPost, callback)\<close>: every \<open>getPost\<close> is started at once; one that
  raises ends the call; otherwise the callback gets the first error, or all results in
  the order of the slugs.
\<close>

fun thrown :: "'a reply list \<Rightarrow> error option" where
  "thrown [] = None"
| "thrown (Thrown e # rs) = Some e"
| "thrown (_ # rs) = thrown rs"

fun failed :: "'a reply list \<Rightarrow> error option" where
  "failed [] = None"
| "failed (Failed e # rs) = Some e"
| "failed (_ # rs) = failed rs"

fun results :: "'a reply list \<Rightarrow> 'a list" where
  "results [] = []"
| "results (Ok x # rs) = x # results rs"
| "results (_ # rs) = results rs"

definition asyncMap :: "'a list \<Rightarrow> ('a \<Rightarrow> 'b reply) \<Rightarrow> 'b list reply" where
  "asyncMap xs f =
     (let rs = map f xs
      in case thrown rs of
           Some e \<Rightarrow> Thrown e
         | None \<Rightarrow> (case failed rs of Some e \<Rightarrow> Failed e | None \<Rightarrow> Ok (results rs)))"

section \<open>Finding posts by author, finding oldest posts\<close>

text \<open>
  \<open>postsBy\<close> streams the keys from \<open>['by', name, '']\<close> to \<open>['by', name, '~']\<close>, takes
  \<open>key[2]\<close> of each as the slug (a missing component is \<open>undefined\<close>, which
  \<open>encodeURIComponent\<close> writes as the string \<open>undefined\<close>), and gets
  \<open>['posts', slug]\<close> for each. \<open>getFault\<close> is the failure the store reports for the get
  of a slug, if any. The callback is called with the error of the stream, if it has one,
  and, at the end of the stream, with what \<open>async.map\<close> makes of the slugs gathered
  until then.
\<close>

record queryFaults =
  streamFault :: "error option"
  getFault :: "jsstring \<Rightarrow> error option"

definition noQueryFaults :: queryFaults where
  "noQueryFaults = \<lparr>streamFault = None, getFault = (\<lambda>slug. None)\<rparr>"

definition component2 :: "key option \<times> val option \<Rightarrow> jsstring" where
  "component2 data =
     (case fst data of
        None \<Rightarrow> js ''undefined''
      | Some k \<Rightarrow> (case drop 2 k of [] \<Rightarrow> js ''undefined'' | x # _ \<Rightarrow> x))"

definition postsBy :: "queryFaults \<Rightarrow> level \<Rightarrow> jsstring \<Rightarrow> val list reply list" where
  "postsBy io lvl name =
     (case createReadStream (streamFault io) (store lvl)
             \<lparr>gte = [js ''by'', name, []], lte = [js ''by'', name, js ''~''],
              keys = True, values = False, limit = None, reverse = False\<rparr> of
        Raised e \<Rightarrow> [Thrown e]
      | Events items err \<Rightarrow>
          onError err @
          [asyncMap (map component2 items)
             (\<lambda>slug. level_get (getFault io slug) (store lvl) [js ''posts'', slug])])"

text \<open>
  \<open>oldestPosts\<close> streams the values from \<open>['date', '']\<close> to \<open>['date', '~']\<close>, backwards,
  at most \<open>howMany\<close> of them (a count), and pushes each value it is handed. The
  callback is called with the error of the stream, if it has one, and, at the end of the
  stream, with the values pushed until then.
\<close>

definition pushed :: "(key option \<times> val option) list \<Rightarrow> val list" where
  "pushed items = List.map_filter snd items"

definition oldestPosts :: "error option \<Rightarrow> level \<Rightarrow> nat \<Rightarrow> val list reply list" where
  "oldestPosts fault lvl howMany =
     (case createReadStream fault (store lvl)
             \<lparr>gte = [js ''date'', []], lte = [js ''date'', js ''~''],
              keys = False, values = True, limit = Some howMany, reverse = True\<rparr> of
        Raised e \<Rightarrow> [Thrown e]
      | Events items err \<Rightarrow> onError err @ [Ok (pushed items)])"

text \<open>The three posts of the example.\<close>

definition firstByAna :: post where
  "firstByAna =
     \<lparr>title = js ''Ana's First Post'', date = js ''2016-01-01'', author = js ''ana'',
      slug = js ''ana-1'', text = js ''Posted!''\<rparr>"

definition secondByBob :: post where
  "secondByBob =
     \<lparr>title = js ''Bob, Too!'', date = js ''2016-01-02'', author = js ''bob'',
      slug = js ''bob-1'', text = js ''Bob write!''\<rparr>"

definition thirdByAna :: post where
  "thirdByAna =
     \<lparr>title = js ''Ana's Second Post'', date = js ''2016-01-03'', author = js ''ana'',
      slug = js ''ana-2'', text = js ''More Ana.''\<rparr>"

section \<open>Evaluating the model\<close>

lemmas codec_defs =
  encode_def decode_def js_def uriUnescaped_def isLeadSurrogate_def isTrailSurrogate_def
  surrogatePair_def utf8Octets_def hexDigit_def percent_def escape_def hexValue_def
  sequenceLength_def codeUnits_def

lemmas putPost_defs =
  putPost_def putPost_call_def putPost_exists_def putPost_batch_def lock_def unlock_def

lemmas level_defs =
  level_exists_def level_get_def level_batch_def encodeOp_def batch_def postKey_def
  emptyLevel_def noFaults_def

lemmas example_posts = firstByAna_def secondByBob_def thirdByAna_def

lemma encode_postKey_firstByAna: "encode (postKey firstByAna) = Inr (js ''posts/ana-1'')"
  by (simp add: postKey_def firstByAna_def codec_defs)

section \<open>putPost: the exits before the batch\<close>

text \<open>
  C10. When \<open>putPost\<close> fails before the batch is applied (with \<open>Conflict\<close> because the
  key, one that encodes, is locked, with the store's error from the existence check, or with
  \<open>Slug already taken\<close>), the store's contents are as before the call, \<open>level.batch\<close>
  is never called, and the callback receives that error.
\<close>

theorem putPost_fails_before_batch_store_unchanged:
  assumes "putPost io lvl p = (lvl', tr)"
    and "postKey p \<in> set (locks lvl) \<and> (\<exists>k. encode (postKey p) = Inr k)
           \<and> e = Error ''Conflict''
       \<or> postKey p \<notin> set (locks lvl)
           \<and> level_exists (existsFault io) (store lvl) (postKey p) = Failed e
       \<or> postKey p \<notin> set (locks lvl)
           \<and> level_exists (existsFault io) (store lvl) (postKey p) = Ok True
           \<and> e = Error ''Slug already taken''"
  shows "store lvl' = store lvl \<and> (\<forall>ops. BatchCalled ops \<notin> set tr)
       \<and> last tr = Callback (Some e)"
  using assms by (auto simp: putPost_defs level_exists_def split: sum.splits)

theorem putPost_fails_before_batch_store_unchanged_witness:
  "putPost \<lparr>existsFault = Some (StoreFailure 5), batchFault = None\<rparr> emptyLevel firstByAna =
     (\<lparr>store = [], locks = [postKey firstByAna]\<rparr>,
      [Locked (postKey firstByAna), ExistsCalled (postKey firstByAna),
       Callback (Some (StoreFailure 5))])
   \<and> postKey firstByAna \<notin> set (locks emptyLevel)
   \<and> level_exists (Some (StoreFailure 5)) (store emptyLevel) (postKey firstByAna)
       = Failed (StoreFailure 5)
   \<and> store \<lparr>store = [], locks = [postKey firstByAna]\<rparr> = store emptyLevel
   \<and> last [Locked (postKey firstByAna), ExistsCalled (postKey firstByAna),
        Callback (Some (StoreFailure 5))] = Callback (Some (StoreFailure 5))"
proof -
  let ?io = "\<lparr>existsFault = Some (StoreFailure 5), batchFault = None\<rparr>"
  have run: "putPost ?io emptyLevel firstByAna =
     (\<lparr>store = [], locks = [postKey firstByAna]\<rparr>,
      [Locked (postKey firstByAna), ExistsCalled (postKey firstByAna),
       Callback (Some (StoreFailure 5))])"
    by (simp add: putPost_defs level_exists_def emptyLevel_def encode_postKey_firstByAna)
  have free: "postKey firstByAna \<notin> set (locks emptyLevel)"
    by (simp add: emptyLevel_def)
  have failed: "level_exists (existsFault ?io) (store emptyLevel) (postKey firstByAna)
      = Failed (StoreFailure 5)"
    by (simp add: level_exists_def encode_postKey_firstByAna)
  from putPost_fails_before_batch_store_unchanged [OF run, of "StoreFailure 5"] free failed
  show ?thesis using run by simp
qed

text \<open>
  C5. When the store already holds a record under the key \<open>['posts', slug]\<close> of the post,
  the key is not locked and the existence check reports no failure of the store,
  \<open>putPost\<close> calls back with \<open>Slug already taken\<close>: it locks, checks once, calls back,
  never calls \<open>level.batch\<close>, and the store is as before.
\<close>

theorem putPost_existing_slug_rejected:
  assumes "encode (postKey p) = Inr k" and "map_of (store lvl) k = Some v"
    and "postKey p \<notin> set (locks lvl)" and "existsFault io = None"
  shows "snd (putPost io lvl p) =
           [Locked (postKey p), ExistsCalled (postKey p),
            Callback (Some (Error ''Slug already taken''))]
       \<and> store (fst (putPost io lvl p)) = store lvl"
  using assms by (simp add: putPost_defs level_exists_def)

theorem putPost_existing_slug_rejected_witness:
  "encode (postKey firstByAna) = Inr (js ''posts/ana-1'')
   \<and> map_of (store \<lparr>store = [(js ''posts/ana-1'', VPost firstByAna)], locks = []\<rparr>)
        (js ''posts/ana-1'') = Some (VPost firstByAna)
   \<and> snd (putPost noFaults \<lparr>store = [(js ''posts/ana-1'', VPost firstByAna)], locks = []\<rparr>
        firstByAna) =
      [Locked (postKey firstByAna), ExistsCalled (postKey firstByAna),
       Callback (Some (Error ''Slug already taken''))]"
  using putPost_existing_slug_rejected
    [of firstByAna "js ''posts/ana-1''"
      "\<lparr>store = [(js ''posts/ana-1'', VPost firstByAna)], locks = []\<rparr>"
      "VPost firstByAna" noFaults]
  by (simp add: encode_postKey_firstByAna noFaults_def)

section \<open>putPost: releasing the lock\<close>

text \<open>
  C1. The lock is released only in the callback of \<open>level.batch\<close>. Storing
  \<open>firstByAna\<close> a second time is rejected with \<open>Slug already taken\<close> and no \<open>unlock()\<close>:
  the key \<open>['posts', 'ana-1']\<close> stays locked after the call has returned, and the next
  \<open>putPost\<close> with that slug is answered \<open>Conflict\<close>.
\<close>

theorem putPost_rejected_duplicate_keeps_lock:
  "snd (putPost noFaults \<lparr>store = [(js ''posts/ana-1'', VPost firstByAna)], locks = []\<rparr>
          firstByAna) =
     [Locked (postKey firstByAna), ExistsCalled (postKey firstByAna),
      Callback (Some (Error ''Slug already taken''))]
   \<and> locks (fst (putPost noFaults
          \<lparr>store = [(js ''posts/ana-1'', VPost firstByAna)], locks = []\<rparr> firstByAna)) =
     [postKey firstByAna]
   \<and> snd (putPost noFaults
        (fst (putPost noFaults
          \<lparr>store = [(js ''posts/ana-1'', VPost firstByAna)], locks = []\<rparr> firstByAna))
        firstByAna) =
     [Callback (Some (Error ''Conflict''))]"
  by (simp add: putPost_defs level_exists_def encode_postKey_firstByAna noFaults_def)

section \<open>Properties of the key encoding\<close>

text \<open>
  \<open>wellFormed\<close>: no surrogate code unit outside a pair, the strings
  \<open>encodeURIComponent\<close> accepts. \<open>keyChar\<close>: the characters it writes, the unescaped
  ones and \<open>%\<close>.
\<close>

fun wellFormed :: "jsstring \<Rightarrow> bool" where
  "wellFormed [] = True"
| "wellFormed (c # cs) =
     (if isTrailSurrogate c then False
      else if isLeadSurrogate c then
        (case cs of [] \<Rightarrow> False | d # ds \<Rightarrow> isTrailSurrogate d \<and> wellFormed ds)
      else wellFormed cs)"

definition keyChar :: "codeunit \<Rightarrow> bool" where
  "keyChar c \<longleftrightarrow> uriUnescaped c \<or> c = 0x25"

lemma hexValue_hexDigit: 
  assumes "d < 16" shows "hexValue (hexDigit d) = Some d"
proof -
  have "d = 0 \<or> d = 1 \<or> d = 2 \<or> d = 3 \<or> d = 4 \<or> d = 5 \<or> d = 6 \<or> d = 7 \<or> d = 8 \<or> d = 9
     \<or> d = 10 \<or> d = 11 \<or> d = 12 \<or> d = 13 \<or> d = 14 \<or> d = 15"
    using assms by arith
  then show ?thesis
    by (elim disjE) (simp_all add: hexValue_def hexDigit_def)
qed

lemma readOctet_percent: "b < 256 \<Longrightarrow> readOctet (percent b @ t) = Some (b, t)"
  by (simp add: percent_def hexValue_hexDigit)

lemma readContinuation_percent:
  "\<forall>b\<in>set bs. 0x80 \<le> b \<and> b < 0xC0 \<Longrightarrow>
   readContinuation (length bs) (concat (map percent bs) @ t) = Some (bs, t)"
  by (induction bs) (simp_all add: readOctet_percent)

lemma octets3: "(cp::nat) div 4096 * 4096 + cp div 64 mod 64 * 64 + cp mod 64 = cp"
proof -
  have a: "cp div 4096 = cp div 64 div 64" by (simp add: div_mult2_eq)
  have b: "cp div 64 div 64 * 64 + cp div 64 mod 64 = cp div 64" by simp
  have c: "cp div 64 * 64 + cp mod 64 = cp" by simp
  show ?thesis unfolding a using b c by linarith
qed

lemma octets4:
  "(cp::nat) div 262144 * 262144 + cp div 4096 mod 64 * 4096 + cp div 64 mod 64 * 64 + cp mod 64 = cp"
proof -
  have a: "cp div 262144 = cp div 4096 div 64" by (simp add: div_mult2_eq)
  have b: "cp div 4096 div 64 * 64 + cp div 4096 mod 64 = cp div 4096" by simp
  show ?thesis unfolding a using b octets3 [of cp] by linarith
qed

lemma decode_percent:
  assumes "a < 256"
  shows "decodeURIComponent (percent a @ u) =
     (if a < 0x80 then
        (case decodeURIComponent u of Inl e \<Rightarrow> Inl e | Inr r \<Rightarrow> Inr (of_nat a # r))
      else if sequenceLength a = 1 \<or> 4 < sequenceLength a then Inl URIError
      else
        (case readContinuation (sequenceLength a - 1) u of
           None \<Rightarrow> Inl URIError
         | Some (bs, rest') \<Rightarrow>
             (case utf8CodePoint (a # bs) of
                None \<Rightarrow> Inl URIError
              | Some cp \<Rightarrow>
                  (case decodeURIComponent rest' of
                     Inl e \<Rightarrow> Inl e
                   | Inr r \<Rightarrow> Inr (codeUnits cp @ r)))))"
proof -
  have "readOctet (0x25 # hexDigit (a div 16) # hexDigit (a mod 16) # u) = Some (a, u)"
    using readOctet_percent [OF assms, of u] by (simp add: percent_def)
  then show ?thesis
    by (simp add: percent_def del: readOctet.simps)
qed

lemma decode_escape:
  assumes "cp \<le> 0x10FFFF" and "\<not> (0xD800 \<le> cp \<and> cp \<le> 0xDFFF)"
  shows "decodeURIComponent (escape cp @ t) =
     (case decodeURIComponent t of Inl e \<Rightarrow> Inl e | Inr r \<Rightarrow> Inr (codeUnits cp @ r))"
proof -
  consider "cp < 0x80" | "0x80 \<le> cp" "cp < 0x800" | "0x800 \<le> cp" "cp < 0x10000"
    | "0x10000 \<le> cp" by linarith
  then show ?thesis
  proof cases
    case 1
    then have cu: "codeUnits cp = [of_nat cp]" by (simp add: codeUnits_def)
    have esc: "escape cp @ t = percent cp @ t"
      using 1 by (simp add: escape_def utf8Octets_def)
    show ?thesis
      unfolding esc using 1 cu by (simp add: decode_percent split: sum.split)
  next
    case 2
    let ?a = "0xC0 + cp div 0x40" and ?b = "0x80 + cp mod 0x40"
    have a: "?a < 256" "\<not> ?a < 0x80" "0xC0 \<le> ?a" "?a < 0xE0" using 2 by simp_all
    have rb: "readContinuation (Suc 0) (percent ?b @ t) = Some ([?b], t)"
      using readContinuation_percent [of "[?b]" t] by simp
    have sl: "sequenceLength ?a = 2" using a by (simp add: sequenceLength_def)
    have cp: "utf8CodePoint [?a, ?b] = Some cp" using 2 by simp
    have esc: "escape cp @ t = percent ?a @ percent ?b @ t"
      using 2 by (simp add: escape_def utf8Octets_def)
    have cu: "codeUnits cp = [of_nat cp]" using 2 by (simp add: codeUnits_def)
    show ?thesis
      unfolding esc decode_percent [OF a(1)] using a(2) sl rb cp cu
      by (simp split: sum.split del: readContinuation.simps utf8CodePoint.simps)
  next
    case 3
    let ?a = "0xE0 + cp div 0x1000" and ?b = "0x80 + cp div 0x40 mod 0x40"
      and ?c = "0x80 + cp mod 0x40"
    have a: "?a < 256" "\<not> ?a < 0x80" "0xE0 \<le> ?a" "?a < 0xF0" using 3 by simp_all
    have rb: "readContinuation (Suc (Suc 0)) (percent ?b @ percent ?c @ t) = Some ([?b, ?c], t)"
      using readContinuation_percent [of "[?b, ?c]" t] by simp
    have sl: "sequenceLength ?a = 3" using a by (simp add: sequenceLength_def)
    have cp: "utf8CodePoint [?a, ?b, ?c] = Some cp" using 3 assms(2) octets3 [of cp] by simp
    have esc: "escape cp @ t = percent ?a @ percent ?b @ percent ?c @ t"
      using 3 by (simp add: escape_def utf8Octets_def)
    have cu: "codeUnits cp = [of_nat cp]" using 3 by (simp add: codeUnits_def)
    show ?thesis
      unfolding esc decode_percent [OF a(1)] using a(2) sl rb cp cu
      by (simp add: numeral_2_eq_2 split: sum.split
          del: readContinuation.simps utf8CodePoint.simps)
  next
    case 4
    let ?a = "0xF0 + cp div 0x40000" and ?b = "0x80 + cp div 0x1000 mod 0x40"
      and ?c = "0x80 + cp div 0x40 mod 0x40" and ?d = "0x80 + cp mod 0x40"
    have a: "?a < 256" "\<not> ?a < 0x80" "0xF0 \<le> ?a" "?a < 0xF8" using 4 assms(1) by simp_all
    have rb: "readContinuation (Suc (Suc (Suc 0))) (percent ?b @ percent ?c @ percent ?d @ t)
        = Some ([?b, ?c, ?d], t)"
      using readContinuation_percent [of "[?b, ?c, ?d]" t] by simp
    have sl: "sequenceLength ?a = 4" using a by (simp add: sequenceLength_def)
    have cp: "utf8CodePoint [?a, ?b, ?c, ?d] = Some cp" using 4 assms(1) octets4 [of cp] by simp
    have esc: "escape cp @ t = percent ?a @ percent ?b @ percent ?c @ percent ?d @ t"
      using 4 by (simp add: escape_def utf8Octets_def)
    show ?thesis
      unfolding esc decode_percent [OF a(1)] using a(2) sl rb cp
      by (simp add: numeral_3_eq_3 split: sum.split
          del: readContinuation.simps utf8CodePoint.simps)
  qed
qed


lemma uriUnescaped_not_percent: "uriUnescaped c \<Longrightarrow> c \<noteq> 0x25"
  by (auto simp: uriUnescaped_def)

lemma codeUnits_unit:
  "\<not> isLeadSurrogate c \<Longrightarrow> \<not> isTrailSurrogate c \<Longrightarrow>
   unat c \<le> 0x10FFFF \<and> \<not> (0xD800 \<le> unat c \<and> unat c \<le> 0xDFFF) \<and> codeUnits (unat c) = [c]"
proof -
  assume a: "\<not> isLeadSurrogate c" "\<not> isTrailSurrogate c"
  have lt: "unat c < 0x10000" using unsigned_less [of c, where ?'a = nat] by simp
  from a have "\<not> (0xD800 \<le> unat c \<and> unat c \<le> 0xDFFF)"
    by (auto simp: isLeadSurrogate_def isTrailSurrogate_def word_le_nat_alt)
  with lt show ?thesis by (simp add: codeUnits_def)
qed

lemma codeUnits_pair:
  assumes "isLeadSurrogate c" and "isTrailSurrogate d"
  shows "surrogatePair c d \<le> 0x10FFFF
     \<and> \<not> (0xD800 \<le> surrogatePair c d \<and> surrogatePair c d \<le> 0xDFFF)
     \<and> codeUnits (surrogatePair c d) = [c, d]"
proof -
  have c: "0xD800 \<le> unat c" "unat c \<le> 0xDBFF"
    using assms(1) by (simp_all add: isLeadSurrogate_def word_le_nat_alt)
  have d: "0xDC00 \<le> unat d" "unat d \<le> 0xDFFF"
    using assms(2) by (simp_all add: isTrailSurrogate_def word_le_nat_alt)
  define h where "h = unat c - 0xD800"
  define l where "l = unat d - 0xDC00"
  have h: "h < 0x400" "unat c = 0xD800 + h" using c by (simp_all add: h_def)
  have l: "l < 0x400" "unat d = 0xDC00 + l" using d by (simp_all add: l_def)
  have sp: "surrogatePair c d = h * 0x400 + l + 0x10000"
    by (simp add: surrogatePair_def h_def l_def)
  have "(h * 0x400 + l) div 0x400 = h" "(h * 0x400 + l) mod 0x400 = l"
    using l(1) by simp_all
  then have "codeUnits (surrogatePair c d) = [of_nat (unat c), of_nat (unat d)]"
    unfolding sp codeUnits_def using h(2) l(2) by simp
  moreover have "surrogatePair c d \<le> 0x10FFFF" "0x10000 \<le> surrogatePair c d"
    unfolding sp using h(1) l(1) by simp_all
  ultimately show ?thesis by simp
qed

lemma decode_encodeURIComponent:
  "encodeURIComponent s = Inr r \<Longrightarrow> decodeURIComponent r = Inr s"
proof (induction s arbitrary: r rule: encodeURIComponent.induct)
  case 1
  then show ?case by simp
next
  case (2 c cs)
  show ?case
  proof (cases "uriUnescaped c")
    case True
    with "2.prems" obtain r' where r': "encodeURIComponent cs = Inr r'" "r = c # r'"
      by (auto split: sum.splits)
    with True "2.IH"(1) have "decodeURIComponent r' = Inr cs" by simp
    with r' uriUnescaped_not_percent [OF True] show ?thesis by simp
  next
    case False
    note unesc = this
    show ?thesis
    proof (cases "isTrailSurrogate c")
      case True
      with unesc "2.prems" show ?thesis by simp
    next
      case False
      note ntrail = this
      show ?thesis
      proof (cases "isLeadSurrogate c")
        case True
        with unesc ntrail "2.prems" obtain d ds r' where
          d: "cs = d # ds" "isTrailSurrogate d" "encodeURIComponent ds = Inr r'"
            "r = escape (surrogatePair c d) @ r'"
          by (auto split: list.splits if_splits sum.splits)
        from "2.IH"(2) [OF unesc ntrail True d(1) d(2) d(3)]
        have ih: "decodeURIComponent r' = Inr ds" .
        from codeUnits_pair [OF True d(2)] decode_escape [of "surrogatePair c d" r']
        show ?thesis by (simp add: d ih)
      next
        case False
        with unesc ntrail "2.prems" obtain r' where
          r': "encodeURIComponent cs = Inr r'" "r = escape (unat c) @ r'"
          by (auto split: sum.splits)
        from "2.IH"(3) [OF unesc ntrail False r'(1)]
        have ih: "decodeURIComponent r' = Inr cs" .
        from codeUnits_unit [OF False ntrail] decode_escape [of "unat c" r']
        show ?thesis by (simp add: r' ih)
      qed
    qed
  qed
qed


lemma uriUnescaped_not_surrogate:
  "uriUnescaped c \<Longrightarrow> \<not> isTrailSurrogate c \<and> \<not> isLeadSurrogate c"
  by (auto simp: uriUnescaped_def isTrailSurrogate_def isLeadSurrogate_def word_le_nat_alt)

lemma encodeURIComponent_wellFormed:
  "(\<exists>r. encodeURIComponent s = Inr r) \<longleftrightarrow> wellFormed s"
proof (induction s rule: wellFormed.induct)
  case 1
  then show ?case by simp
next
  case (2 c cs)
  show ?case
  proof (cases "isTrailSurrogate c")
    case True
    then show ?thesis using uriUnescaped_not_surrogate [of c] by auto
  next
    case nt: False
    show ?thesis
    proof (cases "isLeadSurrogate c")
      case True
      then have "\<not> uriUnescaped c" using uriUnescaped_not_surrogate [of c] by auto
      with nt True "2.IH"(1) show ?thesis
        by (cases cs) (auto split: sum.splits)
    next
      case False
      with nt "2.IH"(2) show ?thesis
        by (cases "encodeURIComponent cs") auto
    qed
  qed
qed

lemma hexDigit_keyChar:
  assumes "d < 16" shows "keyChar (hexDigit d)"
proof -
  have "d = 0 \<or> d = 1 \<or> d = 2 \<or> d = 3 \<or> d = 4 \<or> d = 5 \<or> d = 6 \<or> d = 7 \<or> d = 8 \<or> d = 9
     \<or> d = 10 \<or> d = 11 \<or> d = 12 \<or> d = 13 \<or> d = 14 \<or> d = 15"
    using assms by arith
  then show ?thesis
    by (elim disjE) (simp_all add: keyChar_def uriUnescaped_def hexDigit_def)
qed

lemma percent_keyChar: "b < 256 \<Longrightarrow> c \<in> set (percent b) \<Longrightarrow> keyChar c"
  by (auto simp: percent_def hexDigit_keyChar) (simp add: keyChar_def)

lemma utf8Octets_byte: "cp \<le> 0x10FFFF \<Longrightarrow> b \<in> set (utf8Octets cp) \<Longrightarrow> b < 256"
  by (auto simp: utf8Octets_def split: if_splits)

lemma escape_keyChar: "cp \<le> 0x10FFFF \<Longrightarrow> c \<in> set (escape cp) \<Longrightarrow> keyChar c"
  by (auto simp: escape_def dest: utf8Octets_byte percent_keyChar)

lemma encodeURIComponent_keyChar:
  "encodeURIComponent s = Inr r \<Longrightarrow> c \<in> set r \<Longrightarrow> keyChar c"
proof (induction s arbitrary: r rule: encodeURIComponent.induct)
  case 1
  then show ?case by simp
next
  case (2 a cs)
  show ?case
  proof (cases "uriUnescaped a")
    case True
    with "2.prems" "2.IH"(1) show ?thesis
      by (auto simp: keyChar_def split: sum.splits)
  next
    case unesc: False
    show ?thesis
    proof (cases "isTrailSurrogate a")
      case True
      with unesc "2.prems" show ?thesis by simp
    next
      case ntrail: False
      show ?thesis
      proof (cases "isLeadSurrogate a")
        case True
        with unesc ntrail "2.prems" obtain d ds r' where
          d: "cs = d # ds" "isTrailSurrogate d" "encodeURIComponent ds = Inr r'"
            "r = escape (surrogatePair a d) @ r'"
          by (auto split: list.splits if_splits sum.splits)
        from "2.IH"(2) [OF unesc ntrail True d(1) d(2) d(3)] codeUnits_pair [OF True d(2)]
          "2.prems"(2) d(4)
        show ?thesis by (auto dest: escape_keyChar)
      next
        case False
        with unesc ntrail "2.prems" obtain r' where
          r': "encodeURIComponent cs = Inr r'" "r = escape (unat a) @ r'"
          by (auto split: sum.splits)
        from "2.IH"(3) [OF unesc ntrail False r'(1)] codeUnits_unit [OF False ntrail]
          "2.prems"(2) r'(2)
        show ?thesis by (auto dest: escape_keyChar)
      qed
    qed
  qed
qed

lemma keyChar_not_slash: "keyChar c \<Longrightarrow> c \<noteq> 0x2F"
  by (auto simp: keyChar_def uriUnescaped_def)

lemma keyChar_le_tilde: "keyChar c \<Longrightarrow> c \<le> 0x7E"
  by (auto simp: keyChar_def uriUnescaped_def word_le_nat_alt)

lemma split_no_sep: "sep \<notin> set p \<Longrightarrow> split sep p = [p]"
  by (induction p) auto

lemma split_append_sep: "sep \<notin> set p \<Longrightarrow> split sep (p @ sep # rest) = p # split sep rest"
  by (induction p) auto

lemma split_join:
  "ps \<noteq> [] \<Longrightarrow> \<forall>p\<in>set ps. sep \<notin> set p \<Longrightarrow> split sep (join [sep] ps) = ps"
proof (induction "[sep]" ps rule: join.induct)
  case 1
  then show ?case by simp
next
  case (2 x)
  then show ?case by (simp add: split_no_sep)
next
  case (3 x y ys)
  then show ?case by (simp add: split_append_sep)
qed

lemma mapResult_decode_encode:
  "mapResult encodeURIComponent A = Inr ps \<Longrightarrow> mapResult decodeURIComponent ps = Inr A"
proof (induction A arbitrary: ps)
  case Nil
  then show ?case by simp
next
  case (Cons a A)
  then show ?case
    by (auto split: sum.splits dest: decode_encodeURIComponent)
qed

lemma mapResult_encode_parts:
  "mapResult encodeURIComponent A = Inr ps \<Longrightarrow>
   length ps = length A \<and> (\<forall>p\<in>set ps. \<forall>c\<in>set p. keyChar c)"
proof (induction A arbitrary: ps)
  case Nil
  then show ?case by simp
next
  case (Cons a A)
  then show ?case
    by (fastforce split: sum.splits dest: encodeURIComponent_keyChar)
qed

lemma decode_encode:
  assumes "encode A = Inr k" and "A \<noteq> []"
  shows "decode k = Inr A"
proof -
  from assms(1) obtain ps where ps: "mapResult encodeURIComponent A = Inr ps"
    "k = join [0x2F] ps"
    by (auto simp: encode_def js_def split: sum.splits)
  from mapResult_encode_parts [OF ps(1)] assms(2)
  have "ps \<noteq> []" "\<forall>p\<in>set ps. 0x2F \<notin> set p"
    by (auto dest: keyChar_not_slash)
  then have "split 0x2F k = ps" unfolding ps(2) by (rule split_join)
  with mapResult_decode_encode [OF ps(1)] show ?thesis by (simp add: decode_def)
qed

lemma mapResult_wellFormed:
  "(\<exists>ps. mapResult encodeURIComponent A = Inr ps) \<longleftrightarrow> (\<forall>s\<in>set A. wellFormed s)"
proof (induction A)
  case Nil
  then show ?case by simp
next
  case (Cons a A)
  then show ?case
    using encodeURIComponent_wellFormed [of a] by (auto split: sum.splits)
qed

lemma encode_wellFormed: "(\<exists>k. encode A = Inr k) \<longleftrightarrow> (\<forall>s\<in>set A. wellFormed s)"
  using mapResult_wellFormed [of A] by (auto simp: encode_def split: sum.splits)

lemma encode_inject:
  assumes "encode A = Inr k" and "encode B = Inr k" and "A \<noteq> []" and "B \<noteq> []"
  shows "A = B"
  using decode_encode [OF assms(1,3)] decode_encode [OF assms(2,4)] by simp

section \<open>The key encoding: round trip\<close>

text \<open>
  The empty sequence encodes to the empty string, which decodes to the sequence of one
  empty string; a string with a surrogate outside a pair is not encoded at all.
\<close>

theorem decode_encode_not_identity:
  "encode [] = Inr [] \<and> decode [] = Inr [[]] \<and> decode [] \<noteq> Inr []
   \<and> encode [[0xD800]] = Inl URIError"
  by (simp add: codec_defs)

text \<open>
  C7, amended. For every sequence of string components that is not empty and whose
  components are well formed (no surrogate code unit outside a pair), \<open>encode\<close> returns
  a key and \<open>decode\<close> of that key is the sequence.
\<close>

theorem decode_encode_roundtrip:
  assumes "components \<noteq> []" and "\<forall>s\<in>set components. wellFormed s"
  shows "\<exists>k. encode components = Inr k \<and> decode k = Inr components"
proof -
  from assms(2) obtain k where "encode components = Inr k"
    using encode_wellFormed [of components] by blast
  with decode_encode [OF this assms(1)] show ?thesis by blast
qed

theorem decode_encode_roundtrip_witness:
  "[js ''by'', js ''a b/c'', [0xD83D, 0xDE00]] \<noteq> []
   \<and> wellFormed (js ''by'') \<and> wellFormed (js ''a b/c'') \<and> wellFormed [0xD83D, 0xDE00]
   \<and> encode [js ''by'', js ''a b/c'', [0xD83D, 0xDE00]] = Inr (js ''by/a%20b%2Fc/%F0%9F%98%80'')
   \<and> decode (js ''by/a%20b%2Fc/%F0%9F%98%80'') = Inr [js ''by'', js ''a b/c'', [0xD83D, 0xDE00]]"
proof -
  have wf: "\<forall>s\<in>set [js ''by'', js ''a b/c'', [0xD83D, 0xDE00]]. wellFormed s"
    by (simp add: codec_defs)
  have enc: "encode [js ''by'', js ''a b/c'', [0xD83D, 0xDE00]]
      = Inr (js ''by/a%20b%2Fc/%F0%9F%98%80'')"
    by (simp add: codec_defs)
  from decode_encode_roundtrip [OF _ wf] enc wf show ?thesis by (simp add: codec_defs)
qed

section \<open>The key encoding: order\<close>

text \<open>
  Where all characters are unescaped ones, a component is encoded as itself. Two strings
  of characters above the separator, each followed by nothing or by the separator,
  compare as the strings do, then as what follows.
\<close>

lemma encodeURIComponent_unescaped:
  "\<forall>c\<in>set s. uriUnescaped c \<Longrightarrow> encodeURIComponent s = Inr s"
  by (induction s) simp_all










section \<open>The store as a map\<close>

lemma map_of_applyPuts:
  "map_of (applyPuts s puts) k =
     (case map_of (rev puts) k of Some v \<Rightarrow> Some v | None \<Rightarrow> map_of s k)"
proof (induction puts arbitrary: s)
  case Nil
  then show ?case by simp
next
  case (Cons kv puts)
  show ?case
    by (simp add: Cons.IH update_conv' map_add_def split: option.splits)
qed

lemma map_of_applyPuts3:
  assumes "distinct [kb, kd, kp]"
  shows "map_of (applyPuts s [(kb, vb), (kd, vd), (kp, vp)]) k =
     (if k = kb then Some vb else if k = kd then Some vd else if k = kp then Some vp
      else map_of s k)"
  using assms by (auto simp: update_conv')

lemma records_keys: "map fst (records s) = sort (remdups (map fst s))"
proof -
  have "set ks \<subseteq> fst ` set s \<Longrightarrow>
      map fst (List.map_filter (\<lambda>k. map_option (Pair k) (map_of s k)) ks) = ks" for ks
  proof (induction ks)
    case Nil
    then show ?case by (simp add: List.map_filter_simps)
  next
    case (Cons k ks)
    from Cons.prems have "k \<in> fst ` set s" by simp
    then have "map_of s k \<noteq> None" by (simp add: map_of_eq_None_iff)
    then obtain v where "map_of s k = Some v" by auto
    with Cons show ?case by (simp add: List.map_filter_simps)
  qed
  then show ?thesis by (simp add: records_def)
qed

lemma records_set: "(k, v) \<in> set (records s) \<longleftrightarrow> map_of s k = Some v"
proof
  assume "(k, v) \<in> set (records s)"
  then show "map_of s k = Some v"
    by (auto simp: records_def List.map_filter_def)
next
  assume kv: "map_of s k = Some v"
  then have "k \<in> fst ` set s" by (metis map_of_SomeD fst_conv image_eqI)
  with kv show "(k, v) \<in> set (records s)"
    by (force simp: records_def List.map_filter_def)
qed

lemma records_sorted: "sorted (map fst (records s))" "distinct (map fst (records s))"
  by (simp_all add: records_keys)

section \<open>The example, step by step\<close>

text \<open>
  \<open>putAndQueryData\<close> stores the three posts in series. \<open>store1\<close>, \<open>store2\<close> and
  \<open>store3\<close> are the store after each; \<open>store3\<close> is the table of nine key-value pairs
  (in the order written; \<open>records\<close> gives the order of the keys).
\<close>

lemma enc_keys:
  "encode [js ''posts'', js ''ana-1''] = Inr (js ''posts/ana-1'')"
  "encode [js ''posts'', js ''bob-1''] = Inr (js ''posts/bob-1'')"
  "encode [js ''posts'', js ''ana-2''] = Inr (js ''posts/ana-2'')"
  "encode [js ''by'', js ''ana'', js ''ana-1''] = Inr (js ''by/ana/ana-1'')"
  "encode [js ''by'', js ''bob'', js ''bob-1''] = Inr (js ''by/bob/bob-1'')"
  "encode [js ''by'', js ''ana'', js ''ana-2''] = Inr (js ''by/ana/ana-2'')"
  "encode [js ''date'', js ''2016-01-01'', js ''ana-1''] = Inr (js ''date/2016-01-01/ana-1'')"
  "encode [js ''date'', js ''2016-01-02'', js ''bob-1''] = Inr (js ''date/2016-01-02/bob-1'')"
  "encode [js ''date'', js ''2016-01-03'', js ''ana-2''] = Inr (js ''date/2016-01-03/ana-2'')"
  by (simp_all add: codec_defs)

definition store1 :: "(jsstring \<times> val) list" where
  "store1 = [(js ''by/ana/ana-1'', VString []),
     (js ''date/2016-01-01/ana-1'', VSummary (summary.truncate firstByAna)),
     (js ''posts/ana-1'', VPost firstByAna)]"

lemma putPost_stored:
  assumes "postKey p \<notin> set (locks lvl)"
    and "encode (postKey p) = Inr kp"
    and "encode [js ''by'', author p, slug p] = Inr kb"
    and "encode [js ''date'', date p, slug p] = Inr kd"
    and "map_of (store lvl) kp = None"
  shows "putPost noFaults lvl p =
     (lvl\<lparr>store := applyPuts (store lvl)
         [(kb, VString []), (kd, VSummary (summary.truncate p)), (kp, VPost p)]\<rparr>,
      [Locked (postKey p), ExistsCalled (postKey p), BatchCalled (batch p),
       Unlocked (postKey p), Callback None])"
  using assms
  by (simp add: putPost_defs level_exists_def level_batch_def noFaults_def batch_def encodeOp_def
      summary.truncate_def)


definition store2 :: "(jsstring \<times> val) list" where
  "store2 = store1 @ [(js ''by/bob/bob-1'', VString []),
     (js ''date/2016-01-02/bob-1'', VSummary (summary.truncate secondByBob)),
     (js ''posts/bob-1'', VPost secondByBob)]"

definition store3 :: "(jsstring \<times> val) list" where
  "store3 = store2 @ [(js ''by/ana/ana-2'', VString []),
     (js ''date/2016-01-03/ana-2'', VSummary (summary.truncate thirdByAna)),
     (js ''posts/ana-2'', VPost thirdByAna)]"


lemma stored1: "applyPuts [] [(js ''by/ana/ana-1'', VString []),
     (js ''date/2016-01-01/ana-1'', VSummary (summary.truncate firstByAna)),
     (js ''posts/ana-1'', VPost firstByAna)] = store1"
  by (simp add: store1_def js_def)

lemma stored2: "applyPuts store1 [(js ''by/bob/bob-1'', VString []),
     (js ''date/2016-01-02/bob-1'', VSummary (summary.truncate secondByBob)),
     (js ''posts/bob-1'', VPost secondByBob)] = store2"
  by (simp add: store1_def store2_def js_def)

lemma stored3: "applyPuts store2 [(js ''by/ana/ana-2'', VString []),
     (js ''date/2016-01-03/ana-2'', VSummary (summary.truncate thirdByAna)),
     (js ''posts/ana-2'', VPost thirdByAna)] = store3"
  by (simp add: store1_def store2_def store3_def js_def)

lemma posts_keys_fresh:
  "map_of store1 (js ''posts/bob-1'') = None"
  "map_of store2 (js ''posts/ana-2'') = None"
  by (simp_all add: store1_def store2_def js_def)

lemma step1: "fst (putPost noFaults emptyLevel firstByAna) = \<lparr>store = store1, locks = []\<rparr>"
proof -
  have "putPost noFaults emptyLevel firstByAna =
     (emptyLevel\<lparr>store := applyPuts (store emptyLevel)
         [(js ''by/ana/ana-1'', VString []),
          (js ''date/2016-01-01/ana-1'', VSummary (summary.truncate firstByAna)),
          (js ''posts/ana-1'', VPost firstByAna)]\<rparr>,
      [Locked (postKey firstByAna), ExistsCalled (postKey firstByAna), BatchCalled (batch firstByAna),
       Unlocked (postKey firstByAna), Callback None])"
    by (rule putPost_stored) (simp_all add: emptyLevel_def postKey_def firstByAna_def enc_keys)
  then show ?thesis by (simp add: emptyLevel_def stored1 del: applyPuts.simps)
qed

lemma step2: "fst (putPost noFaults \<lparr>store = store1, locks = []\<rparr> secondByBob) = \<lparr>store = store2, locks = []\<rparr>"
proof -
  let ?l = "\<lparr>store = store1, locks = []\<rparr>"
  have "putPost noFaults ?l secondByBob =
     (?l\<lparr>store := applyPuts (store ?l)
         [(js ''by/bob/bob-1'', VString []),
          (js ''date/2016-01-02/bob-1'', VSummary (summary.truncate secondByBob)),
          (js ''posts/bob-1'', VPost secondByBob)]\<rparr>,
      [Locked (postKey secondByBob), ExistsCalled (postKey secondByBob), BatchCalled (batch secondByBob),
       Unlocked (postKey secondByBob), Callback None])"
    by (rule putPost_stored) (simp_all add: postKey_def secondByBob_def enc_keys posts_keys_fresh)
  then show ?thesis by (simp add: stored2 del: applyPuts.simps)
qed

lemma step3: "fst (putPost noFaults \<lparr>store = store2, locks = []\<rparr> thirdByAna) = \<lparr>store = store3, locks = []\<rparr>"
proof -
  let ?l = "\<lparr>store = store2, locks = []\<rparr>"
  have "putPost noFaults ?l thirdByAna =
     (?l\<lparr>store := applyPuts (store ?l)
         [(js ''by/ana/ana-2'', VString []),
          (js ''date/2016-01-03/ana-2'', VSummary (summary.truncate thirdByAna)),
          (js ''posts/ana-2'', VPost thirdByAna)]\<rparr>,
      [Locked (postKey thirdByAna), ExistsCalled (postKey thirdByAna), BatchCalled (batch thirdByAna),
       Unlocked (postKey thirdByAna), Callback None])"
    by (rule putPost_stored) (simp_all add: postKey_def thirdByAna_def enc_keys posts_keys_fresh)
  then show ?thesis by (simp add: stored3 del: applyPuts.simps)
qed


lemma enc_bounds:
  "encode [js ''date'', []] = Inr (js ''date/'')"
  "encode [js ''date'', js ''~''] = Inr (js ''date/~'')"
  "encode [js ''by'', js ''ana'', []] = Inr (js ''by/ana/'')"
  "encode [js ''by'', js ''ana'', js ''~''] = Inr (js ''by/ana/~'')"
  by (simp_all add: codec_defs)

lemma records3: "records store3 = 
    [(js ''by/ana/ana-1'', VString []),
     (js ''by/ana/ana-2'', VString []),
     (js ''by/bob/bob-1'', VString []),
     (js ''date/2016-01-01/ana-1'', VSummary (summary.truncate firstByAna)),
     (js ''date/2016-01-02/bob-1'', VSummary (summary.truncate secondByBob)),
     (js ''date/2016-01-03/ana-2'', VSummary (summary.truncate thirdByAna)),
     (js ''posts/ana-1'', VPost firstByAna),
     (js ''posts/ana-2'', VPost thirdByAna),
     (js ''posts/bob-1'', VPost secondByBob)]"
  by (simp add: records_def store3_def store2_def store1_def js_def List.map_filter_def)


lemma scan_date: "scan store3 (js ''date/'') (js ''date/~'') True (Some 2) =
    [(js ''date/2016-01-03/ana-2'', VSummary (summary.truncate thirdByAna)),
     (js ''date/2016-01-02/bob-1'', VSummary (summary.truncate secondByBob))]"
  by (simp add: scan_def records3 js_def)

lemma oldestPosts_example: "oldestPosts None \<lparr>store = store3, locks = []\<rparr> 2 =
    [Ok [VSummary (summary.truncate thirdByAna), VSummary (summary.truncate secondByBob)]]"
  by (simp add: oldestPosts_def createReadStream_def enc_bounds scan_date item_def pushed_def
      onError_def List.map_filter_def)

lemma scan_by: "scan store3 (js ''by/ana/'') (js ''by/ana/~'') False None =
    [(js ''by/ana/ana-1'', VString []), (js ''by/ana/ana-2'', VString [])]"
  by (simp add: scan_def records3 js_def)

lemma dec_keys:
  "decode (js ''by/ana/ana-1'') = Inr [js ''by'', js ''ana'', js ''ana-1'']"
  "decode (js ''by/ana/ana-2'') = Inr [js ''by'', js ''ana'', js ''ana-2'']"
  using decode_encode [OF enc_keys(4)] decode_encode [OF enc_keys(6)] by simp_all

lemma get_posts_example:
  "map_of store3 (js ''posts/ana-1'') = Some (VPost firstByAna)"
  "map_of store3 (js ''posts/ana-2'') = Some (VPost thirdByAna)"
  by (simp_all add: store3_def store2_def store1_def js_def)

lemma postsBy_example: "postsBy noQueryFaults \<lparr>store = store3, locks = []\<rparr> (js ''ana'') =
    [Ok [VPost firstByAna, VPost thirdByAna]]"
  by (simp add: postsBy_def createReadStream_def enc_bounds scan_by item_def dec_keys onError_def
      component2_def asyncMap_def noQueryFaults_def level_get_def enc_keys get_posts_example)

section \<open>Stores written by putPost\<close>

text \<open>
  \<open>running\<close>: the states that calls of \<open>putPost\<close> lead to from the empty store, begun
  and answered in any order, with any posts and any failures of the store. \<open>reachable\<close>:
  the store and lock table of such a state. \<open>posted s p\<close>: the three records of \<open>p\<close>'s
  batch are in the store. \<open>complete\<close>: every record of the store belongs to a batch whose
  three records are all there.
\<close>

definition posted :: "(jsstring \<times> val) list \<Rightarrow> post \<Rightarrow> bool" where
  "posted s p \<longleftrightarrow>
     (\<exists>puts. mapResult encodeOp (batch p) = Inr puts
        \<and> (\<forall>kv\<in>set puts. map_of s (fst kv) = Some (snd kv)))"

definition complete :: "(jsstring \<times> val) list \<Rightarrow> bool" where
  "complete s \<longleftrightarrow>
     (\<forall>k v. map_of s k = Some v \<longrightarrow>
        (\<exists>p puts. mapResult encodeOp (batch p) = Inr puts \<and> (k, v) \<in> set puts
           \<and> (\<forall>kv\<in>set puts. map_of s (fst kv) = Some (snd kv))))"

inductive running :: "level \<times> call list \<Rightarrow> bool" where
  idle: "running (emptyLevel, [])"
| step: "running sys \<Longrightarrow> running (act a sys)"

definition reachable :: "level \<Rightarrow> bool" where
  "reachable lvl \<longleftrightarrow> (\<exists>calls. running (lvl, calls))"

text \<open>
  What the lock gives: a call that waits for the store holds the lock of its key, and no
  two such calls have the same key (\<open>holdsLocks\<close>); every locked key encodes
  (\<open>locksEncode\<close>); while a call waits for its batch, the store has no record under its
  key (\<open>writingFresh\<close>).
\<close>

definition inFlight :: "call \<Rightarrow> bool" where
  "inFlight c \<longleftrightarrow> fst (snd c) \<noteq> Finished"

definition holdsLocks :: "level \<Rightarrow> call list \<Rightarrow> bool" where
  "holdsLocks lvl calls \<longleftrightarrow>
     (\<forall>i<length calls. inFlight (calls ! i) \<longrightarrow> postKey (fst (calls ! i)) \<in> set (locks lvl))
     \<and> (\<forall>i<length calls. \<forall>j<length calls.
           inFlight (calls ! i) \<and> inFlight (calls ! j)
           \<and> postKey (fst (calls ! i)) = postKey (fst (calls ! j)) \<longrightarrow> i = j)"

definition locksEncode :: "level \<Rightarrow> bool" where
  "locksEncode lvl \<longleftrightarrow> (\<forall>k\<in>set (locks lvl). \<exists>ek. encode k = Inr ek)"

definition writingFresh :: "level \<Rightarrow> call list \<Rightarrow> bool" where
  "writingFresh lvl calls \<longleftrightarrow>
     (\<forall>i<length calls. fst (snd (calls ! i)) = Writing \<longrightarrow>
        (\<forall>k. encode (postKey (fst (calls ! i))) = Inr k \<longrightarrow> map_of (store lvl) k = None))"

lemma encoded_batch:
  "mapResult encodeOp (batch p) = Inr puts \<longleftrightarrow>
     (\<exists>kb kd kp. encode [js ''by'', author p, slug p] = Inr kb
        \<and> encode [js ''date'', date p, slug p] = Inr kd
        \<and> encode [js ''posts'', slug p] = Inr kp
        \<and> puts = [(kb, VString []), (kd, VSummary (summary.truncate p)), (kp, VPost p)])"
  by (auto simp: batch_def encodeOp_def postKey_def summary.truncate_def split: sum.splits)

lemma js_namespaces:
  "js ''by'' \<noteq> js ''date''" "js ''by'' \<noteq> js ''posts''" "js ''date'' \<noteq> js ''posts''"
  "js ''date'' \<noteq> js ''by''" "js ''posts'' \<noteq> js ''by''" "js ''posts'' \<noteq> js ''date''"
  by (simp_all add: js_def)

lemma encode_eq_iff:
  assumes "encode A = Inr k" and "A \<noteq> []" and "B \<noteq> []"
  shows "encode B = Inr k \<longleftrightarrow> B = A"
  using assms encode_inject [of B k A] by auto

lemma batch_keys_distinct:
  assumes "mapResult encodeOp (batch p) = Inr puts"
  shows "distinct (map fst puts)"
proof -
  from assms obtain kb kd kp where k: "encode [js ''by'', author p, slug p] = Inr kb"
    "encode [js ''date'', date p, slug p] = Inr kd" "encode [js ''posts'', slug p] = Inr kp"
    "puts = [(kb, VString []), (kd, VSummary (summary.truncate p)), (kp, VPost p)]"
    by (auto simp: encoded_batch)
  have "kb \<noteq> kd" using encode_inject [OF k(1) _ _ _, of "[js ''date'', date p, slug p]"] k(2)
    by (auto simp: js_namespaces)
  moreover have "kb \<noteq> kp" using encode_inject [OF k(1) _ _ _, of "[js ''posts'', slug p]"] k(3)
    by auto
  moreover have "kd \<noteq> kp" using encode_inject [OF k(2) _ _ _, of "[js ''posts'', slug p]"] k(3)
    by auto
  ultimately show ?thesis by (simp add: k(4))
qed

lemma batch_keys_share_slug:
  assumes "mapResult encodeOp (batch p) = Inr P" and "mapResult encodeOp (batch q) = Inr Q"
    and "k \<in> fst ` set P" and "k \<in> fst ` set Q"
  shows "slug p = slug q"
proof -
  from assms(1,3) obtain A where A: "encode A = Inr k"
    "A = [js ''by'', author p, slug p] \<or> A = [js ''date'', date p, slug p]
      \<or> A = [js ''posts'', slug p]"
    by (auto simp: encoded_batch)
  from assms(2,4) obtain B where B: "encode B = Inr k"
    "B = [js ''by'', author q, slug q] \<or> B = [js ''date'', date q, slug q]
      \<or> B = [js ''posts'', slug q]"
    by (auto simp: encoded_batch)
  from A(2) B(2) have "A \<noteq> []" "B \<noteq> []" by auto
  from encode_inject [OF A(1) B(1) this] have "A = B" .
  with A(2) B(2) show ?thesis by (auto simp: js_namespaces)
qed

lemma map_of_applyPuts_distinct:
  assumes "distinct (map fst puts)"
  shows "map_of (applyPuts s puts) k =
     (case map_of puts k of Some v \<Rightarrow> Some v | None \<Rightarrow> map_of s k)"
proof -
  have "distinct (map fst (rev puts))" using assms by (simp add: rev_map [symmetric])
  then have "map_of (rev puts) = map_of puts"
    using assms by (simp add: map_of_inject_set)
  then show ?thesis by (simp add: map_of_applyPuts)
qed

lemma complete_applyPuts:
  assumes c: "complete s" and q: "mapResult encodeOp (batch q) = Inr puts"
    and kq: "encode (postKey q) = Inr k" and fresh: "map_of s k = None"
  shows "complete (applyPuts s puts)"
proof -
  let ?s' = "applyPuts s puts"
  have d: "distinct (map fst puts)" using q by (rule batch_keys_distinct)
  have new: "map_of ?s' (fst kv) = Some (snd kv)" if "kv \<in> set puts" for kv
  proof -
    from that have "(fst kv, snd kv) \<in> set puts" by simp
    with d have "map_of puts (fst kv) = Some (snd kv)" by (rule map_of_is_SomeI)
    then show ?thesis by (simp only: map_of_applyPuts_distinct [OF d] option.case)
  qed
  have kin: "k \<in> fst ` set puts"
    using q kq by (auto simp: encoded_batch postKey_def)
  have old: "map_of ?s' k' = map_of s k'" if "k' \<notin> fst ` set puts" for k'
  proof -
    from that have "map_of puts k' = None" by (simp add: map_of_eq_None_iff)
    then show ?thesis by (simp only: map_of_applyPuts_distinct [OF d] option.case)
  qed
  show ?thesis
    unfolding complete_def
  proof (intro allI impI)
    fix k' v assume kv: "map_of ?s' k' = Some v"
    show "\<exists>p P. mapResult encodeOp (batch p) = Inr P \<and> (k', v) \<in> set P
        \<and> (\<forall>kv\<in>set P. map_of ?s' (fst kv) = Some (snd kv))"
    proof (cases "k' \<in> fst ` set puts")
      case True
      then obtain v' where "(k', v') \<in> set puts" by auto
      with new [of "(k', v')"] kv have "(k', v) \<in> set puts" by simp
      with q new show ?thesis by blast
    next
      case False
      with kv old have "map_of s k' = Some v" by simp
      with c obtain p P where p: "mapResult encodeOp (batch p) = Inr P" "(k', v) \<in> set P"
        "\<forall>kv\<in>set P. map_of s (fst kv) = Some (snd kv)"
        unfolding complete_def by blast
      have "map_of ?s' (fst kv) = Some (snd kv)" if "kv \<in> set P" for kv
      proof -
        have "fst kv \<notin> fst ` set puts"
        proof
          assume "fst kv \<in> fst ` set puts"
          with that have "slug p = slug q"
            using batch_keys_share_slug [OF p(1) q, of "fst kv"] by auto
          then have "encode (postKey p) = Inr k" using kq by (simp add: postKey_def)
          then have "(k, VPost p) \<in> set P" using p(1) by (auto simp: encoded_batch postKey_def)
          with p(3) fresh show False by auto
        qed
        with old p(3) that show ?thesis by simp
      qed
      with p(1,2) show ?thesis by blast
    qed
  qed
qed

lemma putPost_call_raises:
  assumes "encode (postKey p) = Inl e"
  shows "putPost_call lvl p = (lvl, [Threw e], Finished)"
  using assms by (simp add: putPost_call_def lock_def)

lemma putPost_call_conflict:
  assumes "encode (postKey p) = Inr k" and "postKey p \<in> set (locks lvl)"
  shows "putPost_call lvl p = (lvl, [Callback (Some (Error ''Conflict''))], Finished)"
  using assms by (simp add: putPost_call_def lock_def)

lemma putPost_call_locks:
  assumes "encode (postKey p) = Inr k" and "postKey p \<notin> set (locks lvl)"
  shows "putPost_call lvl p
     = (lvl\<lparr>locks := postKey p # locks lvl\<rparr>,
        [Locked (postKey p), ExistsCalled (postKey p)], Checking)"
  using assms by (simp add: putPost_call_def lock_def)

lemma putPost_call_cases:
  "putPost_call lvl p = (lvl', evs, ph) \<Longrightarrow>
     (lvl' = lvl \<and> ph = Finished)
   \<or> (postKey p \<notin> set (locks lvl) \<and> (\<exists>k. encode (postKey p) = Inr k)
        \<and> lvl' = lvl\<lparr>locks := postKey p # locks lvl\<rparr>
        \<and> ph = Checking \<and> evs = [Locked (postKey p), ExistsCalled (postKey p)])"
  by (auto simp: putPost_call_def lock_def split: if_splits sum.splits)

lemma act_cases [consumes 0, case_names refused locked checked written idle]:
  assumes "\<And>p evs. a = Begin p \<Longrightarrow>
      act a (lvl, calls) = (lvl, calls @ [(p, Finished, evs)]) \<Longrightarrow> P"
    and "\<And>p. a = Begin p \<Longrightarrow> postKey p \<notin> set (locks lvl) \<Longrightarrow>
      \<exists>k. encode (postKey p) = Inr k \<Longrightarrow>
      act a (lvl, calls)
        = (lvl\<lparr>locks := postKey p # locks lvl\<rparr>,
           calls @ [(p, Checking, [Locked (postKey p), ExistsCalled (postKey p)])]) \<Longrightarrow> P"
    and "\<And>i fault p evs evs' ph. a = Respond i fault \<Longrightarrow> i < length calls \<Longrightarrow>
      calls ! i = (p, Checking, evs) \<Longrightarrow>
      ph = Finished \<or> ph = Writing \<and> level_exists fault (store lvl) (postKey p) = Ok False \<Longrightarrow>
      act a (lvl, calls) = (lvl, calls[i := (p, ph, evs @ evs')]) \<Longrightarrow> P"
    and "\<And>i fault p evs evs' lvl'. a = Respond i fault \<Longrightarrow> i < length calls \<Longrightarrow>
      calls ! i = (p, Writing, evs) \<Longrightarrow>
      act a (lvl, calls) = (lvl', calls[i := (p, Finished, evs @ evs')]) \<Longrightarrow>
      lvl' = lvl
      \<or> locks lvl' = removeAll (postKey p) (locks lvl)
        \<and> (store lvl' = store lvl
           \<or> (\<exists>puts. mapResult encodeOp (batch p) = Inr puts
                \<and> store lvl' = applyPuts (store lvl) puts)) \<Longrightarrow> P"
    and "act a (lvl, calls) = (lvl, calls) \<Longrightarrow> P"
  shows P
proof (cases a)
  case (Begin p)
  obtain lvl' evs ph where c: "putPost_call lvl p = (lvl', evs, ph)"
    by (cases "putPost_call lvl p") auto
  from putPost_call_cases [OF c] show ?thesis
  proof (elim disjE conjE)
    assume "lvl' = lvl" "ph = Finished"
    with c Begin assms(1) [of p evs] show P by simp
  next
    assume "postKey p \<notin> set (locks lvl)" "\<exists>k. encode (postKey p) = Inr k"
      "lvl' = lvl\<lparr>locks := postKey p # locks lvl\<rparr>"
      "ph = Checking" "evs = [Locked (postKey p), ExistsCalled (postKey p)]"
    with c Begin assms(2) [of p] show P by simp
  qed
next
  case (Respond i fault)
  show ?thesis
  proof (cases "i < length calls")
    case False
    with Respond assms(5) show ?thesis by simp
  next
    case True
    obtain p ph evs where ci: "calls ! i = (p, ph, evs)" by (cases "calls ! i") auto
    show ?thesis
    proof (cases ph)
      case Checking
      obtain lvl' evs' ph' where e: "putPost_exists fault lvl p = (lvl', evs', ph')"
        by (cases "putPost_exists fault lvl p") auto
      then have "lvl' = lvl"
        "ph' = Finished \<or> ph' = Writing \<and> level_exists fault (store lvl) (postKey p) = Ok False"
        by (auto simp: putPost_exists_def split: reply.splits if_splits)
      with assms(3) [of i fault p evs ph' evs'] Respond True ci Checking e show ?thesis
        by simp
    next
      case Writing
      obtain lvl' evs' ph' where b: "putPost_batch fault lvl p = (lvl', evs', ph')"
        by (cases "putPost_batch fault lvl p") auto
      then have "ph' = Finished"
        "lvl' = lvl
          \<or> locks lvl' = removeAll (postKey p) (locks lvl)
            \<and> (store lvl' = store lvl
               \<or> (\<exists>puts. mapResult encodeOp (batch p) = Inr puts
                    \<and> store lvl' = applyPuts (store lvl) puts))"
        by (auto simp: putPost_batch_def unlock_def level_batch_def
            split: reply.splits sum.splits option.splits)
      with assms(4) [of i fault p evs lvl' evs'] Respond True ci Writing b show ?thesis
        by simp
    next
      case Finished
      with Respond True ci assms(5) show ?thesis by simp
    qed
  qed
qed


lemma holdsLocks_act:
  assumes h: "holdsLocks lvl calls"
  shows "holdsLocks (fst (act a (lvl, calls))) (snd (act a (lvl, calls)))"
proof (cases a lvl calls rule: act_cases)
  case (refused p evs)
  from h show ?thesis
    unfolding refused(2) holdsLocks_def
    by (auto simp: nth_append inFlight_def less_Suc_eq)
next
  case (locked p)
  from h locked(2) show ?thesis
    unfolding locked(4) holdsLocks_def
    by (auto simp: nth_append inFlight_def less_Suc_eq)
next
  case (checked i fault p evs evs' ph)
  have fl: "inFlight (calls ! i)" using checked(3) by (simp add: inFlight_def)
  have key: "postKey (fst (calls[i := (p, ph, evs @ evs')] ! j)) = postKey (fst (calls ! j))"
    if "j < length calls" for j
    using that checked(2,3) by (cases "j = i") simp_all
  have was: "inFlight (calls ! j)"
    if "j < length calls" "inFlight (calls[i := (p, ph, evs @ evs')] ! j)" for j
    using that fl checked(2) by (cases "j = i") simp_all
  from h show ?thesis
    unfolding checked(5) holdsLocks_def
    by (simp add: key was del: nth_list_update)
next
  case (written i fault p evs evs' lvl')
  have fl: "inFlight (calls ! i)" using written(3) by (simp add: inFlight_def)
  have key: "postKey (fst (calls[i := (p, Finished, evs @ evs')] ! j)) = postKey (fst (calls ! j))"
    if "j < length calls" for j
    using that written(2,3) by (cases "j = i") simp_all
  have was: "inFlight (calls ! j) \<and> j \<noteq> i"
    if "j < length calls" "inFlight (calls[i := (p, Finished, evs @ evs')] ! j)" for j
    using that fl written(2) by (cases "j = i") (simp_all add: inFlight_def)
  have held: "postKey (fst (calls ! j)) \<in> set (locks lvl')"
    if j: "j < length calls" "inFlight (calls ! j)" "j \<noteq> i" for j
  proof -
    from h j have in_locks: "postKey (fst (calls ! j)) \<in> set (locks lvl)"
      unfolding holdsLocks_def by blast
    from h j fl written(2) have "postKey (fst (calls ! j)) \<noteq> postKey (fst (calls ! i))"
      unfolding holdsLocks_def by blast
    with written(3) have "postKey (fst (calls ! j)) \<noteq> postKey p" by simp
    with in_locks written(5) show ?thesis by auto
  qed
  have one: "j = k"
    if "j < length calls" "k < length calls" "inFlight (calls ! j)" "inFlight (calls ! k)"
      "postKey (fst (calls ! j)) = postKey (fst (calls ! k))" for j k
    using h that unfolding holdsLocks_def by blast
  show ?thesis
    unfolding written(4) holdsLocks_def
    by (simp add: key del: nth_list_update) (metis held one was)
next
  case idle
  with h show ?thesis by simp
qed


lemma posts_key_in_batch:
  assumes "mapResult encodeOp (batch p) = Inr puts" and "encode (postKey q) = Inr k"
    and "k \<in> fst ` set puts"
  shows "postKey q = postKey p"
proof -
  from assms(1,3) obtain A where A: "encode A = Inr k"
    "A = [js ''by'', author p, slug p] \<or> A = [js ''date'', date p, slug p]
      \<or> A = [js ''posts'', slug p]"
    by (auto simp: encoded_batch)
  from A(2) have "A \<noteq> []" by auto
  from encode_inject [OF A(1) assms(2) this] have "A = postKey q" by (simp add: postKey_def)
  with A(2) show ?thesis by (auto simp: postKey_def)
qed

lemma map_of_applyPuts_other:
  assumes "mapResult encodeOp (batch p) = Inr puts" and "k \<notin> fst ` set puts"
  shows "map_of (applyPuts s puts) k = map_of s k"
proof -
  have d: "distinct (map fst puts)" using assms(1) by (rule batch_keys_distinct)
  from assms(2) have "map_of puts k = None" by (simp add: map_of_eq_None_iff)
  then show ?thesis by (simp only: map_of_applyPuts_distinct [OF d] option.case)
qed

lemma writingFresh_act:
  assumes h: "holdsLocks lvl calls" and w: "writingFresh lvl calls"
  shows "writingFresh (fst (act a (lvl, calls))) (snd (act a (lvl, calls)))"
proof (cases a lvl calls rule: act_cases)
  case (refused p evs)
  from w show ?thesis
    unfolding refused(2) writingFresh_def
    by (auto simp: nth_append less_Suc_eq)
next
  case (locked p)
  from w show ?thesis
    unfolding locked(4) writingFresh_def
    by (auto simp: nth_append less_Suc_eq)
next
  case (checked i fault p evs evs' ph)
  have new: "map_of (store lvl) k = None"
    if "ph = Writing" "encode (postKey p) = Inr k" for k
    using checked(4) that by (auto simp: level_exists_def split: option.splits)
  have "\<forall>k. encode (postKey (fst (calls[i := (p, ph, evs @ evs')] ! j))) = Inr k
      \<longrightarrow> map_of (store lvl) k = None"
    if "j < length calls" "fst (snd (calls[i := (p, ph, evs @ evs')] ! j)) = Writing" for j
  proof (cases "j = i")
    case True
    with that checked(2) new show ?thesis by simp
  next
    case False
    with that w show ?thesis unfolding writingFresh_def by simp
  qed
  then show ?thesis
    unfolding checked(5) writingFresh_def by simp
next
  case (written i fault p evs evs' lvl')
  have fl: "inFlight (calls ! i)" using written(3) by (simp add: inFlight_def)
  have "map_of (store lvl') k = None"
    if j: "j < length calls" "fst (snd (calls[i := (p, Finished, evs @ evs')] ! j)) = Writing"
      and k: "encode (postKey (fst (calls[i := (p, Finished, evs @ evs')] ! j))) = Inr k"
    for j k
  proof -
    from j written(2) have ji: "j \<noteq> i" by auto
    with j k have cj: "fst (snd (calls ! j)) = Writing"
      "encode (postKey (fst (calls ! j))) = Inr k" by simp_all
    with w j(1) have old: "map_of (store lvl) k = None" unfolding writingFresh_def by blast
    from cj(1) have "inFlight (calls ! j)" by (simp add: inFlight_def)
    with h j(1) ji fl written(2)
    have "postKey (fst (calls ! j)) \<noteq> postKey (fst (calls ! i))"
      unfolding holdsLocks_def by blast
    with written(3) have ne: "postKey (fst (calls ! j)) \<noteq> postKey p" by simp
    from written(5) show ?thesis
    proof (elim disjE conjE exE)
      assume "lvl' = lvl"
      with old show ?thesis by simp
    next
      assume "store lvl' = store lvl"
      with old show ?thesis by simp
    next
      fix puts assume p: "mapResult encodeOp (batch p) = Inr puts"
        "store lvl' = applyPuts (store lvl) puts"
      from posts_key_in_batch [OF p(1) cj(2)] ne have "k \<notin> fst ` set puts" by blast
      from map_of_applyPuts_other [OF p(1) this] p(2) old show ?thesis by simp
    qed
  qed
  then show ?thesis
    unfolding written(4) writingFresh_def by simp
next
  case idle
  with w show ?thesis by simp
qed

lemma complete_act:
  assumes w: "writingFresh lvl calls" and c: "complete (store lvl)"
  shows "complete (store (fst (act a (lvl, calls))))"
proof (cases a lvl calls rule: act_cases)
  case (refused p evs)
  with c show ?thesis by simp
next
  case (locked p)
  with c show ?thesis by simp
next
  case (checked i fault p evs evs' ph)
  with c show ?thesis by simp
next
  case (written i fault p evs evs' lvl')
  from written(5) show ?thesis
  proof (elim disjE conjE exE)
    assume "lvl' = lvl"
    with c written(4) show ?thesis by simp
  next
    assume "store lvl' = store lvl"
    with c written(4) show ?thesis by simp
  next
    fix puts assume p: "mapResult encodeOp (batch p) = Inr puts"
      "store lvl' = applyPuts (store lvl) puts"
    from p(1) obtain k where k: "encode (postKey p) = Inr k"
      by (auto simp: encoded_batch postKey_def)
    with w written(2,3) have "map_of (store lvl) k = None"
      unfolding writingFresh_def by force
    from complete_applyPuts [OF c p(1) k this] p(2) written(4) show ?thesis by simp
  qed
next
  case idle
  with c show ?thesis by simp
qed

lemma locksEncode_act:
  assumes e: "locksEncode lvl"
  shows "locksEncode (fst (act a (lvl, calls)))"
proof (cases a lvl calls rule: act_cases)
  case (refused p evs)
  with e show ?thesis by simp
next
  case (locked p)
  with e show ?thesis by (auto simp: locksEncode_def)
next
  case (checked i fault p evs evs' ph)
  with e show ?thesis by simp
next
  case (written i fault p evs evs' lvl')
  from written(5) e show ?thesis
    unfolding written(4) by (auto simp: locksEncode_def)
next
  case idle
  with e show ?thesis by simp
qed

lemma running_invariants:
  "running sys \<Longrightarrow>
     holdsLocks (fst sys) (snd sys) \<and> writingFresh (fst sys) (snd sys)
     \<and> complete (store (fst sys)) \<and> locksEncode (fst sys)"
proof (induction rule: running.induct)
  case idle
  show ?case
    by (simp add: holdsLocks_def writingFresh_def complete_def locksEncode_def emptyLevel_def)
next
  case (step sys a)
  obtain lvl calls where sys: "sys = (lvl, calls)" by (cases sys)
  from step.IH show ?case
    unfolding sys using holdsLocks_act [of lvl calls a] writingFresh_act [of lvl calls a]
      complete_act [of lvl calls a] locksEncode_act [of lvl a calls]
    by simp
qed

lemma running_run: "running sys \<Longrightarrow> running (run acts sys)"
  unfolding run_def by (induction acts arbitrary: sys) (simp_all add: running.step)

lemma run_Cons: "run (a # acts) sys = run acts (act a sys)"
  by (simp add: run_def)

lemma run_Nil: "run [] sys = sys"
  by (simp add: run_def)

lemma run_putPost:
  "run [Begin p, Respond (length calls) (existsFault io), Respond (length calls) (batchFault io)]
       (lvl, calls)
     = (fst (putPost io lvl p), calls @ [(p, Finished, snd (putPost io lvl p))])"
proof -
  obtain l1 t1 ph1 where c: "putPost_call lvl p = (l1, t1, ph1)"
    by (cases "putPost_call lvl p") auto
  obtain l2 t2 ph2 where e: "putPost_exists (existsFault io) l1 p = (l2, t2, ph2)"
    by (cases "putPost_exists (existsFault io) l1 p") auto
  obtain l3 t3 ph3 where b: "putPost_batch (batchFault io) l2 p = (l3, t3, ph3)"
    by (cases "putPost_batch (batchFault io) l2 p") auto
  from c have ph1: "ph1 = Checking \<or> ph1 = Finished"
    using putPost_call_cases [OF c] by auto
  from e have ph2: "ph2 = Writing \<or> ph2 = Finished"
    by (auto simp: putPost_exists_def split: reply.splits if_splits)
  from b have ph3: "ph3 = Finished"
    by (auto simp: putPost_batch_def split: reply.splits)
  from ph1 ph2 ph3 show ?thesis
    by (auto simp: run_Cons run_Nil putPost_def c e b)
qed

lemma reachable_start: "reachable emptyLevel"
  unfolding reachable_def using running.idle by blast

lemma reachable_put:
  assumes "reachable lvl"
  shows "reachable (fst (putPost io lvl p))"
proof -
  from assms obtain calls where "running (lvl, calls)" unfolding reachable_def by blast
  then have "running (run [Begin p, Respond (length calls) (existsFault io),
      Respond (length calls) (batchFault io)] (lvl, calls))"
    by (rule running_run)
  then show ?thesis unfolding run_putPost reachable_def by blast
qed

lemma reachable_complete: "reachable lvl \<Longrightarrow> complete (store lvl)"
  unfolding reachable_def using running_invariants by fastforce


lemma level_get_Ok:
  "level_get None s key = Ok v \<longleftrightarrow> (\<exists>k. encode key = Inr k \<and> map_of s k = Some v)"
  by (auto simp: level_get_def split: sum.splits option.splits)


lemma posted_records:
  "posted s p \<longleftrightarrow>
     level_get None s [js ''by'', author p, slug p] = Ok (VString [])
     \<and> level_get None s [js ''date'', date p, slug p] = Ok (VSummary (summary.truncate p))
     \<and> level_get None s [js ''posts'', slug p] = Ok (VPost p)"
  by (auto simp: posted_def encoded_batch level_get_Ok)




lemma posted_same_slug:
  assumes "posted s p" and "posted s q" and "slug p = slug q"
  shows "p = q"
  using assms by (auto simp: posted_records level_get_Ok)



section \<open>putPost: two calls for one slug\<close>

text \<open>
  A call begun while the lock of its key is held ends in the call itself, with
  \<open>Conflict\<close>; a call in flight holds the lock of its key.
\<close>

lemma in_flight_locked:
  assumes "running (lvl, calls)" and "i < length calls" and "inFlight (calls ! i)"
    and "slug q = slug (fst (calls ! i))"
  shows "postKey q \<in> set (locks lvl)"
proof -
  from running_invariants [OF assms(1)] have "holdsLocks lvl calls" by simp
  with assms(2,3) have "postKey (fst (calls ! i)) \<in> set (locks lvl)"
    unfolding holdsLocks_def by blast
  with assms(4) show ?thesis by (simp add: postKey_def)
qed

lemma begin_conflict:
  assumes "running (lvl, calls)" and "i < length calls" and "inFlight (calls ! i)"
    and "slug q = slug (fst (calls ! i))"
  shows "act (Begin q) (lvl, calls)
     = (lvl, calls @ [(q, Finished, [Callback (Some (Error ''Conflict''))])])"
proof -
  have held: "postKey q \<in> set (locks lvl)" using assms by (rule in_flight_locked)
  from running_invariants [OF assms(1)] have "locksEncode lvl" by simp
  with held obtain k where "encode (postKey q) = Inr k"
    unfolding locksEncode_def by blast
  from putPost_call_conflict [OF this held] show ?thesis by simp
qed

lemma run_overlapping:
  assumes free: "postKey p \<notin> set (locks lvl)" and same: "slug q = slug p"
    and enc: "encode (postKey p) = Inr k"
  shows "run [Begin p, Begin q, Respond (length calls) (existsFault io),
              Respond (length calls) (batchFault io)] (lvl, calls)
     = (fst (putPost io lvl p),
        calls @ [(p, Finished, snd (putPost io lvl p)),
                 (q, Finished, [Callback (Some (Error ''Conflict''))])])"
proof -
  let ?l1 = "lvl\<lparr>locks := postKey p # locks lvl\<rparr>"
  have c: "putPost_call lvl p = (?l1, [Locked (postKey p), ExistsCalled (postKey p)], Checking)"
    using enc free by (rule putPost_call_locks)
  have q: "putPost_call ?l1 q = (?l1, [Callback (Some (Error ''Conflict''))], Finished)"
    using same enc by (simp add: putPost_call_def lock_def postKey_def)
  obtain l2 t2 ph2 where e: "putPost_exists (existsFault io) ?l1 p = (l2, t2, ph2)"
    by (cases "putPost_exists (existsFault io) ?l1 p") auto
  obtain l3 t3 ph3 where b: "putPost_batch (batchFault io) l2 p = (l3, t3, ph3)"
    by (cases "putPost_batch (batchFault io) l2 p") auto
  from e have ph2: "ph2 = Writing \<or> ph2 = Finished"
    by (auto simp: putPost_exists_def split: reply.splits if_splits)
  from b have ph3: "ph3 = Finished"
    by (auto simp: putPost_batch_def split: reply.splits)
  from ph2 ph3 show ?thesis
    by (auto simp: run_Cons run_Nil putPost_def c q e b nth_append)
qed

text \<open>A second post with the slug of \<open>firstByAna\<close>.\<close>

definition anaAgain :: post where
  "anaAgain = firstByAna\<lparr>title := js ''Ana Again'', text := js ''Posted twice!''\<rparr>"

lemma slug_anaAgain: "slug anaAgain = slug firstByAna"
  by (simp add: anaAgain_def)

lemma run_overlapping_fresh:
  assumes free: "postKey p \<notin> set (locks lvl)" and same: "slug q = slug p"
    and fresh: "level_exists None (store lvl) (postKey p) = Ok False"
    and puts: "mapResult encodeOp (batch p) = Inr puts"
  shows "run [Begin p, Begin q, Respond (length calls) None, Respond (length calls) None]
             (lvl, calls)
     = (lvl\<lparr>store := applyPuts (store lvl) puts\<rparr>,
        calls @ [(p, Finished, [Locked (postKey p), ExistsCalled (postKey p),
                   BatchCalled (batch p), Unlocked (postKey p), Callback None]),
                 (q, Finished, [Callback (Some (Error ''Conflict''))])])"
proof -
  from fresh obtain k where enc: "encode (postKey p) = Inr k"
    by (auto simp: level_exists_def split: sum.splits)
  have "putPost noFaults lvl p
      = (lvl\<lparr>store := applyPuts (store lvl) puts\<rparr>,
         [Locked (postKey p), ExistsCalled (postKey p), BatchCalled (batch p),
          Unlocked (postKey p), Callback None])"
    using free fresh puts enc
    by (simp add: putPost_defs level_batch_def noFaults_def)
  with run_overlapping [OF free same enc, of calls noFaults] show ?thesis
    by (simp add: noFaults_def)
qed

lemma run_append: "run (as @ bs) sys = run bs (run as sys)"
  by (simp add: run_def)

lemma put1:
  "putPost noFaults emptyLevel firstByAna
     = (\<lparr>store = store1, locks = []\<rparr>,
        [Locked (postKey firstByAna), ExistsCalled (postKey firstByAna),
         BatchCalled (batch firstByAna), Unlocked (postKey firstByAna), Callback None])"
proof -
  have "putPost noFaults emptyLevel firstByAna =
     (emptyLevel\<lparr>store := applyPuts (store emptyLevel)
         [(js ''by/ana/ana-1'', VString []),
          (js ''date/2016-01-01/ana-1'', VSummary (summary.truncate firstByAna)),
          (js ''posts/ana-1'', VPost firstByAna)]\<rparr>,
      [Locked (postKey firstByAna), ExistsCalled (postKey firstByAna), BatchCalled (batch firstByAna),
       Unlocked (postKey firstByAna), Callback None])"
    by (rule putPost_stored) (simp_all add: emptyLevel_def postKey_def firstByAna_def enc_keys)
  then show ?thesis by (simp add: emptyLevel_def stored1 del: applyPuts.simps)
qed

lemma put1_again:
  "putPost noFaults \<lparr>store = store1, locks = []\<rparr> firstByAna
     = (\<lparr>store = store1, locks = [postKey firstByAna]\<rparr>,
        [Locked (postKey firstByAna), ExistsCalled (postKey firstByAna),
         Callback (Some (Error ''Slug already taken''))])"
proof -
  have k: "encode (postKey firstByAna) = Inr (js ''posts/ana-1'')"
    by (simp add: postKey_def firstByAna_def enc_keys)
  have s: "map_of store1 (js ''posts/ana-1'') = Some (VPost firstByAna)"
    by (simp add: store1_def js_def)
  show ?thesis
    by (simp add: putPost_defs level_exists_def noFaults_def k s)
qed

text \<open>
  After \<open>firstByAna\<close> is stored, two calls with its slug, the second begun before the
  store answers the first: the first ends with \<open>Slug already taken\<close>, the second with
  \<open>Conflict\<close>, and neither succeeds. (The lock of the first is still held at the end.)
\<close>

theorem overlapping_putPost_none_succeeds:
  "run [Begin firstByAna, Respond 0 None, Respond 0 None,
        Begin firstByAna, Begin anaAgain, Respond 1 None, Respond 1 None] (emptyLevel, [])
   = (\<lparr>store = store1, locks = [postKey firstByAna]\<rparr>,
      [(firstByAna, Finished, [Locked (postKey firstByAna), ExistsCalled (postKey firstByAna),
          BatchCalled (batch firstByAna), Unlocked (postKey firstByAna), Callback None]),
       (firstByAna, Finished, [Locked (postKey firstByAna), ExistsCalled (postKey firstByAna),
          Callback (Some (Error ''Slug already taken''))]),
       (anaAgain, Finished, [Callback (Some (Error ''Conflict''))])])"
proof -
  let ?c1 = "(firstByAna, Finished, [Locked (postKey firstByAna), ExistsCalled (postKey firstByAna),
          BatchCalled (batch firstByAna), Unlocked (postKey firstByAna), Callback None])"
  have first: "run [Begin firstByAna, Respond 0 None, Respond 0 None] (emptyLevel, [])
      = (\<lparr>store = store1, locks = []\<rparr>, [?c1])"
    using run_putPost [of firstByAna "[]" noFaults emptyLevel]
    unfolding put1 by (simp add: noFaults_def)
  have pair: "run [Begin firstByAna, Begin anaAgain, Respond 1 None, Respond 1 None]
        (\<lparr>store = store1, locks = []\<rparr>, [?c1])
      = (\<lparr>store = store1, locks = [postKey firstByAna]\<rparr>,
         [?c1,
          (firstByAna, Finished, [Locked (postKey firstByAna), ExistsCalled (postKey firstByAna),
            Callback (Some (Error ''Slug already taken''))]),
          (anaAgain, Finished, [Callback (Some (Error ''Conflict''))])])"
    using run_overlapping [of firstByAna "\<lparr>store = store1, locks = []\<rparr>" anaAgain
        "js ''posts/ana-1''" "[?c1]" noFaults]
    unfolding put1_again
    by (simp add: slug_anaAgain noFaults_def postKey_def firstByAna_def enc_keys)
  have "run ([Begin firstByAna, Respond 0 None, Respond 0 None]
        @ [Begin firstByAna, Begin anaAgain, Respond 1 None, Respond 1 None]) (emptyLevel, [])
      = run [Begin firstByAna, Begin anaAgain, Respond 1 None, Respond 1 None]
          (\<lparr>store = store1, locks = []\<rparr>, [?c1])"
    unfolding run_append first ..
  with pair show ?thesis by simp
qed

text \<open>
  A call whose key does not encode raises in the call itself, out of \<open>lock\<close>: it takes
  no lock and is never in flight, and so does a second call with its slug.
\<close>

definition lonePost :: post where
  "lonePost = firstByAna\<lparr>slug := [0xD800]\<rparr>"

lemma run_raising:
  assumes enc: "encode (postKey p) = Inl e" and same: "slug q = slug p"
  shows "run [Begin p, Begin q] (lvl, calls)
     = (lvl, calls @ [(p, Finished, [Threw e]), (q, Finished, [Threw e])])"
proof -
  from enc same have "encode (postKey q) = Inl e" by (simp add: postKey_def)
  from putPost_call_raises [OF enc] putPost_call_raises [OF this] show ?thesis
    by (simp add: run_Cons run_Nil)
qed

text \<open>
  C8, amended. In every state that calls of \<open>putPost\<close> lead to, begun and answered in any
  order: a call for a slug that a call in flight has (one that took the lock and waits for
  the store) gets \<open>Conflict\<close> at once, in the call itself, and changes neither the store
  nor the locks. For two calls with one slug, the second begun while the first waits for
  its existence check (the first found its key free and took the lock), the first ends as
  it would have alone and the second with \<open>Conflict\<close>, so at most one succeeds; when the
  store has no record under the slug's key, the keys of the batch encode and the store
  reports no failure, the first succeeds: one success and one \<open>Conflict\<close>. When the key
  of the slug does not encode, no call for it takes the lock: each raises in the call
  itself.
\<close>

theorem overlapping_putPost_second_conflicts:
  "(running (lvl, calls) \<and> i < length calls \<and> inFlight (calls ! i)
      \<and> slug q = slug (fst (calls ! i)) \<longrightarrow>
      act (Begin q) (lvl, calls)
        = (lvl, calls @ [(q, Finished, [Callback (Some (Error ''Conflict''))])]))
   \<and> (postKey p \<notin> set (locks lvl) \<and> (\<exists>k. encode (postKey p) = Inr k)
      \<and> slug r = slug p \<longrightarrow>
      run [Begin p, Begin r, Respond (length calls) (existsFault io),
           Respond (length calls) (batchFault io)] (lvl, calls)
        = (fst (putPost io lvl p),
           calls @ [(p, Finished, snd (putPost io lvl p)),
                    (r, Finished, [Callback (Some (Error ''Conflict''))])]))
   \<and> (postKey p \<notin> set (locks lvl) \<and> slug r = slug p
      \<and> level_exists None (store lvl) (postKey p) = Ok False
      \<and> mapResult encodeOp (batch p) = Inr puts \<longrightarrow>
      run [Begin p, Begin r, Respond (length calls) None, Respond (length calls) None]
          (lvl, calls)
        = (lvl\<lparr>store := applyPuts (store lvl) puts\<rparr>,
           calls @ [(p, Finished, [Locked (postKey p), ExistsCalled (postKey p),
                      BatchCalled (batch p), Unlocked (postKey p), Callback None]),
                    (r, Finished, [Callback (Some (Error ''Conflict''))])]))
   \<and> (encode (postKey u) = Inl e \<and> slug w = slug u \<longrightarrow>
      run [Begin u, Begin w] (lvl, calls)
        = (lvl, calls @ [(u, Finished, [Threw e]), (w, Finished, [Threw e])]))"
  using begin_conflict [of lvl calls i q]
    run_overlapping [of p lvl r _ calls io] run_overlapping_fresh [of p lvl r puts calls]
    run_raising [of u e w lvl calls]
  by blast

theorem overlapping_putPost_second_conflicts_witness:
  "running (\<lparr>store = [], locks = [postKey secondByBob]\<rparr>,
            [(secondByBob, Checking, [Locked (postKey secondByBob), ExistsCalled (postKey secondByBob)])])
   \<and> inFlight (secondByBob, Checking, [Locked (postKey secondByBob), ExistsCalled (postKey secondByBob)])
   \<and> act (Begin secondByBob)
        (\<lparr>store = [], locks = [postKey secondByBob]\<rparr>,
         [(secondByBob, Checking, [Locked (postKey secondByBob), ExistsCalled (postKey secondByBob)])])
      = (\<lparr>store = [], locks = [postKey secondByBob]\<rparr>,
         [(secondByBob, Checking, [Locked (postKey secondByBob), ExistsCalled (postKey secondByBob)]),
          (secondByBob, Finished, [Callback (Some (Error ''Conflict''))])])
   \<and> postKey firstByAna \<notin> set [postKey secondByBob]
   \<and> encode (postKey firstByAna) = Inr (js ''posts/ana-1'')
   \<and> slug anaAgain = slug firstByAna
   \<and> level_exists None [] (postKey firstByAna) = Ok False
   \<and> run [Begin firstByAna, Begin anaAgain, Respond 1 None, Respond 1 None]
        (\<lparr>store = [], locks = [postKey secondByBob]\<rparr>,
         [(secondByBob, Checking, [Locked (postKey secondByBob), ExistsCalled (postKey secondByBob)])])
      = (\<lparr>store = store1, locks = [postKey secondByBob]\<rparr>,
         [(secondByBob, Checking, [Locked (postKey secondByBob), ExistsCalled (postKey secondByBob)]),
          (firstByAna, Finished, [Locked (postKey firstByAna), ExistsCalled (postKey firstByAna),
             BatchCalled (batch firstByAna), Unlocked (postKey firstByAna), Callback None]),
          (anaAgain, Finished, [Callback (Some (Error ''Conflict''))])])
   \<and> encode (postKey lonePost) = Inl URIError
   \<and> run [Begin lonePost, Begin lonePost]
        (\<lparr>store = [], locks = [postKey secondByBob]\<rparr>,
         [(secondByBob, Checking, [Locked (postKey secondByBob), ExistsCalled (postKey secondByBob)])])
      = (\<lparr>store = [], locks = [postKey secondByBob]\<rparr>,
         [(secondByBob, Checking, [Locked (postKey secondByBob), ExistsCalled (postKey secondByBob)]),
          (lonePost, Finished, [Threw URIError]), (lonePost, Finished, [Threw URIError])])"
proof -
  let ?l = "\<lparr>store = [], locks = [postKey secondByBob]\<rparr>"
  let ?cs = "[(secondByBob, Checking, [Locked (postKey secondByBob), ExistsCalled (postKey secondByBob)])]"
  let ?puts = "[(js ''by/ana/ana-1'', VString []),
          (js ''date/2016-01-01/ana-1'', VSummary (summary.truncate firstByAna)),
          (js ''posts/ana-1'', VPost firstByAna)]"
  have "running (act (Begin secondByBob) (emptyLevel, []))"
    by (intro running.intros)
  moreover have "encode (postKey secondByBob) = Inr (js ''posts/bob-1'')"
    by (simp add: postKey_def secondByBob_def enc_keys)
  ultimately have r: "running (?l, ?cs)"
    by (simp add: putPost_call_def lock_def emptyLevel_def)
  have fl: "inFlight (?cs ! 0)" "0 < length ?cs" "slug secondByBob = slug (fst (?cs ! 0))"
    by (simp_all add: inFlight_def)
  have free: "postKey firstByAna \<notin> set (locks ?l)"
    by (simp add: postKey_def example_posts js_def)
  have fresh: "level_exists None (store ?l) (postKey firstByAna) = Ok False"
    by (simp add: level_exists_def postKey_def firstByAna_def enc_keys)
  have puts: "mapResult encodeOp (batch firstByAna) = Inr ?puts"
    by (simp add: encoded_batch firstByAna_def enc_keys)
  have enc: "encode (postKey firstByAna) = Inr (js ''posts/ana-1'')"
    by (simp add: postKey_def firstByAna_def enc_keys)
  have lone: "encode (postKey lonePost) = Inl URIError"
    by (simp add: postKey_def lonePost_def codec_defs)
  from overlapping_putPost_second_conflicts
    [of ?l ?cs 0 secondByBob firstByAna anaAgain noFaults ?puts lonePost URIError lonePost]
    r fl free fresh puts slug_anaAgain lone
  have "act (Begin secondByBob) (?l, ?cs)
        = (?l, ?cs @ [(secondByBob, Finished, [Callback (Some (Error ''Conflict''))])])"
    and "run [Begin firstByAna, Begin anaAgain, Respond (length ?cs) None, Respond (length ?cs) None]
          (?l, ?cs)
        = (?l\<lparr>store := applyPuts (store ?l) ?puts\<rparr>,
           ?cs @ [(firstByAna, Finished, [Locked (postKey firstByAna), ExistsCalled (postKey firstByAna),
                      BatchCalled (batch firstByAna), Unlocked (postKey firstByAna), Callback None]),
                    (anaAgain, Finished, [Callback (Some (Error ''Conflict''))])])"
    and "run [Begin lonePost, Begin lonePost] (?l, ?cs)
        = (?l, ?cs @ [(lonePost, Finished, [Threw URIError]),
                      (lonePost, Finished, [Threw URIError])])"
    by blast+
  with r fl free fresh enc lone show ?thesis
    by (simp add: stored1 slug_anaAgain del: applyPuts.simps)
qed

section \<open>Lemmas for the queries\<close>

subsection \<open>The order of strings\<close>

lemma append_le_append: "a @ x \<le> a @ y \<longleftrightarrow> x \<le> (y :: 'a::linorder list)"
  by (induction a) auto

lemma append_less_append: "a @ x < a @ y \<longleftrightarrow> x < (y :: 'a::linorder list)"
  by (induction a) auto

lemma between_prefix:
  fixes lo k :: "'a::linorder list"
  assumes "lo \<le> k" and "k \<le> lo @ [c]"
  shows "\<exists>r. k = lo @ r \<and> r \<le> [c]"
  using assms
proof (induction lo arbitrary: k)
  case Nil
  then show ?case by simp
next
  case (Cons x lo)
  then obtain y k' where k: "k = y # k'" by (cases k) auto
  with Cons.prems have "x = y" "lo \<le> k'" "k' \<le> lo @ [c]" by auto
  with Cons.IH [of k'] k show ?case by auto
qed

lemma same_length_le:
  fixes a b :: "'a::linorder list"
  assumes "length a = length b" and "a @ x \<le> b @ y"
  shows "a \<le> b"
  using assms
proof (induction a arbitrary: b)
  case Nil
  then show ?case by simp
next
  case (Cons c a)
  then obtain d b' where "b = d # b'" by (cases b) auto
  with Cons show ?case by auto
qed

lemma sep_split_unique:
  assumes "a @ sep # x = b @ sep # y" and "sep \<notin> set a" and "sep \<notin> set b"
  shows "a = b \<and> x = y"
  using assms
proof (induction a arbitrary: b)
  case Nil
  then show ?case by (cases b) auto
next
  case (Cons c a)
  then show ?case by (cases b) auto
qed

subsection \<open>Keys of two and three components\<close>

lemma encode2:
  "encode [a, b] =
     (case encodeURIComponent a of Inl e \<Rightarrow> Inl e | Inr ea \<Rightarrow>
      (case encodeURIComponent b of Inl e \<Rightarrow> Inl e | Inr eb \<Rightarrow> Inr (ea @ 0x2F # eb)))"
  by (simp add: encode_def js_def split: sum.splits)

lemma encode3:
  "encode [a, b, c] =
     (case encodeURIComponent a of Inl e \<Rightarrow> Inl e | Inr ea \<Rightarrow>
      (case encodeURIComponent b of Inl e \<Rightarrow> Inl e | Inr eb \<Rightarrow>
       (case encodeURIComponent c of Inl e \<Rightarrow> Inl e | Inr ec \<Rightarrow>
          Inr (ea @ 0x2F # eb @ 0x2F # ec))))"
  by (simp add: encode_def js_def split: sum.splits)

lemma encodeURIComponent_literals:
  "encodeURIComponent (js ''by'') = Inr (js ''by'')"
  "encodeURIComponent (js ''date'') = Inr (js ''date'')"
  "encodeURIComponent (js ''posts'') = Inr (js ''posts'')"
  "encodeURIComponent (js ''~'') = Inr (js ''~'')"
  "encodeURIComponent (js ''undefined'') = Inr (js ''undefined'')"
  by (simp_all add: js_def uriUnescaped_def)

lemma encodeURIComponent_inject:
  "encodeURIComponent a = Inr e \<Longrightarrow> encodeURIComponent b = Inr e \<Longrightarrow> a = b"
  using decode_encodeURIComponent [of a e] decode_encodeURIComponent [of b e] by simp

lemma encodeURIComponent_no_slash: "encodeURIComponent a = Inr e \<Longrightarrow> 0x2F \<notin> set e"
  by (auto dest: encodeURIComponent_keyChar keyChar_not_slash)

subsection \<open>Scans and maps\<close>

lemma scan_forward:
  "scan s lo hi False None = filter (\<lambda>kv. lo \<le> fst kv \<and> fst kv \<le> hi) (records s)"
  by (simp add: scan_def)

lemma scan_forward_set:
  "(k, v) \<in> set (scan s lo hi False None) \<longleftrightarrow> map_of s k = Some v \<and> lo \<le> k \<and> k \<le> hi"
  by (auto simp: scan_forward records_set)

lemma mapResult_list_all2:
  "mapResult f xs = Inr ys \<longleftrightarrow> list_all2 (\<lambda>x y. f x = Inr y) xs ys"
proof (induction xs arbitrary: ys)
  case Nil
  then show ?case by auto
next
  case (Cons x xs)
  show ?case
    by (cases ys) (auto simp: Cons.IH [symmetric] split: sum.splits)
qed

lemma mapResult_map:
  "\<forall>x\<in>set xs. f x = Inr (g x) \<Longrightarrow> mapResult f xs = Inr (map g xs)"
  by (induction xs) auto

lemma mapResult_in:
  "mapResult f xs = Inr ys \<Longrightarrow> x \<in> set xs \<Longrightarrow> \<exists>y\<in>set ys. f x = Inr y"
proof (induction xs arbitrary: ys)
  case Nil
  then show ?case by simp
next
  case (Cons a xs)
  then show ?case by (auto split: sum.splits)
qed

lemma mapResult_from:
  "mapResult f xs = Inr ys \<Longrightarrow> y \<in> set ys \<Longrightarrow> \<exists>x\<in>set xs. f x = Inr y"
proof (induction xs arbitrary: ys)
  case Nil
  then show ?case by simp
next
  case (Cons a xs)
  then show ?case by (auto split: sum.splits)
qed

lemma deliver_mapResult: "mapResult f xs = Inr ys \<Longrightarrow> deliver f xs = (ys, None)"
proof (induction xs arbitrary: ys)
  case Nil
  then show ?case by simp
next
  case (Cons a xs)
  then show ?case by (auto split: sum.splits)
qed

subsection \<open>async.map\<close>

lemma thrown_None: "thrown rs = None \<longleftrightarrow> (\<forall>e. Thrown e \<notin> set rs)"
  by (induction rs rule: thrown.induct) auto

lemma failed_None: "failed rs = None \<longleftrightarrow> (\<forall>e. Failed e \<notin> set rs)"
  by (induction rs rule: failed.induct) auto

lemma asyncMap_Ok:
  assumes "asyncMap xs f = Ok ys" and "x \<in> set xs"
  shows "\<exists>y. f x = Ok y"
proof -
  from assms(1) have "thrown (map f xs) = None" "failed (map f xs) = None"
    by (auto simp: asyncMap_def Let_def split: option.splits)
  then have t: "Thrown e \<notin> set (map f xs)" and f: "Failed e \<notin> set (map f xs)" for e
    using thrown_None [of "map f xs"] failed_None [of "map f xs"] by blast+
  from assms(2) have "f x \<in> set (map f xs)" by simp
  with t f show ?thesis by (cases "f x") auto
qed

lemma asyncMap_not_Thrown:
  assumes "\<forall>x\<in>set xs. \<forall>e. f x \<noteq> Thrown e"
  shows "asyncMap xs f \<noteq> Thrown e"
proof -
  from assms have "\<forall>e. Thrown e \<notin> set (map f xs)" by (metis imageE list.set_map)
  then have "thrown (map f xs) = None" using thrown_None [of "map f xs"] by blast
  then show ?thesis by (simp add: asyncMap_def Let_def split: option.splits)
qed

lemma results_all_Ok: "\<forall>x\<in>set xs. f x = Ok (g x) \<Longrightarrow> results (map f xs) = map g xs"
  by (induction xs) auto

lemma asyncMap_all_Ok: "\<forall>x\<in>set xs. f x = Ok (g x) \<Longrightarrow> asyncMap xs f = Ok (map g xs)"
proof -
  assume a: "\<forall>x\<in>set xs. f x = Ok (g x)"
  then have "thrown (map f xs) = None" "failed (map f xs) = None"
    by (auto simp: thrown_None failed_None)
  with results_all_Ok [OF a] show ?thesis by (simp add: asyncMap_def)
qed

section \<open>postsBy: an index record without its post\<close>

text \<open>
  \<open>wellKeyed\<close>: every key of the store is the encoding of a key, as it is when every
  write went through the key encoding.
\<close>

definition wellKeyed :: "(jsstring \<times> val) list \<Rightarrow> bool" where
  "wellKeyed s \<longleftrightarrow> (\<forall>k\<in>fst ` set s. \<exists>key. key \<noteq> [] \<and> encode key = Inr k)"

lemma by_range:
  assumes "encode [js ''by'', name, sl] = Inr k"
  shows "\<exists>en es. encodeURIComponent name = Inr en \<and> encodeURIComponent sl = Inr es
     \<and> encode [js ''by'', name, []] = Inr (js ''by/'' @ en @ [0x2F])
     \<and> encode [js ''by'', name, js ''~''] = Inr ((js ''by/'' @ en @ [0x2F]) @ js ''~'')
     \<and> k = (js ''by/'' @ en @ [0x2F]) @ es"
proof -
  have lit: "js ''by/'' = js ''by'' @ [0x2F]" by (simp add: js_def)
  from assms show ?thesis
    unfolding lit
    by (auto simp: encode3 encodeURIComponent_literals split: sum.splits)
qed

lemma component2_Some: "component2 (Some [a, b, c], x) = c"
  by (simp add: component2_def)

lemma wellFormed_undefined: "wellFormed (js ''undefined'')"
  using encodeURIComponent_wellFormed [of "js ''undefined''"]
  by (simp add: encodeURIComponent_literals)

lemma component2_wellFormed:
  assumes "\<forall>s\<in>set key. wellFormed s"
  shows "wellFormed (component2 (Some key, x))"
proof (cases "drop 2 key")
  case Nil
  then show ?thesis by (simp add: component2_def wellFormed_undefined)
next
  case (Cons c cs)
  then have "c \<in> set (drop 2 key)" by simp
  then have "c \<in> set key" by (rule in_set_dropD)
  with assms Cons show ?thesis by (simp add: component2_def)
qed

lemma level_get_not_Thrown:
  "wellFormed sl \<Longrightarrow> level_get fault s [js ''posts'', sl] \<noteq> Thrown e"
proof -
  assume "wellFormed sl"
  then obtain es where "encodeURIComponent sl = Inr es"
    using encodeURIComponent_wellFormed [of sl] by auto
  then show ?thesis
    by (simp add: level_get_def encode2 encodeURIComponent_literals split: option.splits)
qed

lemma mapResult_Inl:
  "mapResult f xs = Inl e \<Longrightarrow> \<exists>x\<in>set xs. f x = Inl e"
proof (induction xs)
  case Nil
  then show ?case by simp
next
  case (Cons a xs)
  then show ?case by (auto split: sum.splits)
qed

lemma failed_Some: "failed rs = Some e \<Longrightarrow> Failed e \<in> set rs"
  by (induction rs rule: failed.induct) auto

text \<open>
  A by-author record within the bounds of the scan, with no record under
  \<open>['posts', slug]\<close>: in a store whose keys are all encoded keys, when the stream reports
  no failure, \<open>postsBy\<close> calls back once, with an error, which is the not-found error of
  the get when the gets report no other failure.
\<close>

lemma missing_post_within_bounds:
  assumes idx: "encode [js ''by'', name, sl] = Inr k" and rec: "map_of (store lvl) k = Some v"
    and es: "encodeURIComponent sl = Inr es" and rng: "es \<le> js ''~''"
    and noprim: "level_exists None (store lvl) [js ''posts'', sl] = Ok False"
    and wk: "wellKeyed (store lvl)" and sf: "streamFault io = None"
  shows "(\<exists>e. postsBy io lvl name = [Failed e])
       \<and> ((\<forall>slug. getFault io slug = None) \<longrightarrow> postsBy io lvl name = [Failed NotFoundError])"
proof -
  let ?s = "store lvl"
  let ?opts = "\<lparr>gte = [js ''by'', name, []], lte = [js ''by'', name, js ''~''],
                keys = True, values = False, limit = None, reverse = False\<rparr>"
  let ?get = "\<lambda>slug. level_get (getFault io slug) ?s [js ''posts'', slug]"
  from by_range [OF idx] es obtain pre where
    lo: "encode [js ''by'', name, []] = Inr pre"
    and hi: "encode [js ''by'', name, js ''~''] = Inr (pre @ js ''~'')"
    and k: "k = pre @ es"
    by auto
  let ?scan = "scan ?s pre (pre @ js ''~'') False None"
  have inrange: "pre \<le> k" "k \<le> pre @ js ''~''"
    using rng append_le_append [of pre "[]" es] by (simp_all add: k append_le_append)
  have inscan: "(k, v) \<in> set ?scan"
    using rec inrange by (simp add: scan_forward_set)
  have dec: "decode k = Inr [js ''by'', name, sl]"
    using decode_encode [OF idx] by simp
  have getsl: "\<forall>y. ?get sl \<noteq> Ok y"
    using noprim by (auto simp: level_exists_def level_get_def split: sum.splits option.splits)
  have keyed: "\<exists>key. key \<noteq> [] \<and> encode key = Inr k'" if "(k', v') \<in> set ?scan" for k' v'
  proof -
    from that have "map_of ?s k' = Some v'" by (simp add: scan_forward_set)
    then have "k' \<in> fst ` set ?s" by (metis map_of_SomeD fst_conv image_eqI)
    with wk show ?thesis unfolding wellKeyed_def by blast
  qed
  have "mapResult (item ?opts) ?scan \<noteq> Inl e'" for e'
  proof
    assume "mapResult (item ?opts) ?scan = Inl e'"
    from mapResult_Inl [OF this] obtain k' v' where
      kv: "(k', v') \<in> set ?scan" "item ?opts (k', v') = Inl e'" by auto
    from keyed [OF kv(1)] obtain key where key: "key \<noteq> []" "encode key = Inr k'" by blast
    from decode_encode [OF key(2,1)] kv(2) show False by (simp add: item_def)
  qed
  then obtain items where items: "mapResult (item ?opts) ?scan = Inr items"
    by (cases "mapResult (item ?opts) ?scan") auto
  have "createReadStream (streamFault io) ?s ?opts = Events items None"
    using sf by (simp add: createReadStream_def lo hi deliver_mapResult [OF items])
  then have result: "postsBy io lvl name = [asyncMap (map component2 items) ?get]"
    by (simp add: postsBy_def onError_def)
  have notOk: "asyncMap (map component2 items) ?get \<noteq> Ok posts" for posts
  proof
    assume ok: "asyncMap (map component2 items) ?get = Ok posts"
    from mapResult_in [OF items inscan] obtain y where
      y: "y \<in> set items" "item ?opts (k, v) = Inr y" by blast
    from y(2) dec have "component2 y = sl" by (auto simp: item_def component2_def)
    with y(1) have "sl \<in> set (map component2 items)" by force
    from asyncMap_Ok [OF ok this] getsl show False by blast
  qed
  have notThrown: "asyncMap (map component2 items) ?get \<noteq> Thrown e" for e
  proof -
    have "\<forall>slug\<in>set (map component2 items). \<forall>e. ?get slug \<noteq> Thrown e"
    proof (intro ballI allI)
      fix slug e assume "slug \<in> set (map component2 items)"
      then obtain y where y: "y \<in> set items" "slug = component2 y" by auto
      from mapResult_from [OF items y(1)] obtain k' v' where
        kv: "(k', v') \<in> set ?scan" "item ?opts (k', v') = Inr y" by auto
      from keyed [OF kv(1)] obtain key where key: "key \<noteq> []" "encode key = Inr k'" by blast
      from decode_encode [OF key(2,1)] kv(2) have "y = (Some key, None)"
        by (simp add: item_def)
      moreover from key(2) have "\<forall>s\<in>set key. wellFormed s"
        using encode_wellFormed [of key] by blast
      ultimately have "wellFormed slug" using y(2) by (simp add: component2_wellFormed)
      then show "?get slug \<noteq> Thrown e" by (rule level_get_not_Thrown)
    qed
    then show ?thesis by (rule asyncMap_not_Thrown)
  qed
  from notOk notThrown obtain e where e: "asyncMap (map component2 items) ?get = Failed e"
    by (cases "asyncMap (map component2 items) ?get") auto
  have "e = NotFoundError" if gf: "\<forall>slug. getFault io slug = None"
  proof -
    from e have "Failed e \<in> set (map ?get (map component2 items))"
      by (auto simp: asyncMap_def Let_def split: option.splits dest: failed_Some)
    then obtain slug where "?get slug = Failed e" by auto
    with gf show ?thesis
      by (auto simp: level_get_def split: sum.splits option.splits)
  qed
  with result e show ?thesis by auto
qed

text \<open>
  A store with one by-author record and no post. For the slug \<open>ghost\<close> the get of
  \<open>['posts', 'ghost']\<close> finds nothing and \<open>postsBy\<close> calls back with its error. For the
  slug \<open>~zed\<close> the record's key \<open>by/ana/~zed\<close> lies above the upper bound \<open>by/ana/~\<close> of
  the scan.
\<close>

definition ghostStore :: "(jsstring \<times> val) list" where
  "ghostStore = [(js ''by/ana/ghost'', VString [])]"

definition orphanStore :: "(jsstring \<times> val) list" where
  "orphanStore = [(js ''by/ana/~zed'', VString [])]"

lemma ghost_scan: "scan ghostStore (js ''by/ana/'') (js ''by/ana/~'') False None = ghostStore"
  by (simp add: scan_def records_def ghostStore_def List.map_filter_def js_def)

lemma orphan_scan: "scan orphanStore (js ''by/ana/'') (js ''by/ana/~'') False None = []"
  by (simp add: scan_def records_def orphanStore_def List.map_filter_def js_def)

lemma ghost_key:
  "encode [js ''by'', js ''ana'', js ''ghost''] = Inr (js ''by/ana/ghost'')"
  "decode (js ''by/ana/ghost'') = Inr [js ''by'', js ''ana'', js ''ghost'']"
  "encode [js ''posts'', js ''ghost''] = Inr (js ''posts/ghost'')"
proof -
  show e: "encode [js ''by'', js ''ana'', js ''ghost''] = Inr (js ''by/ana/ghost'')"
    by (simp add: codec_defs)
  from decode_encode [OF e]
  show "decode (js ''by/ana/ghost'') = Inr [js ''by'', js ''ana'', js ''ghost'']" by simp
  show "encode [js ''posts'', js ''ghost''] = Inr (js ''posts/ghost'')"
    by (simp add: codec_defs)
qed

lemma orphan_key:
  "encode [js ''by'', js ''ana'', js ''~zed''] = Inr (js ''by/ana/~zed'')"
  "encode [js ''posts'', js ''~zed''] = Inr (js ''posts/~zed'')"
  by (simp_all add: codec_defs)

lemma ghost_postsBy:
  "postsBy noQueryFaults \<lparr>store = ghostStore, locks = []\<rparr> (js ''ana'') = [Failed NotFoundError]"
proof -
  let ?opts = "\<lparr>gte = [js ''by'', js ''ana'', []], lte = [js ''by'', js ''ana'', js ''~''],
                keys = True, values = False, limit = None, reverse = False\<rparr>"
  have items: "deliver (item ?opts) ghostStore
      = ([(Some [js ''by'', js ''ana'', js ''ghost''], None)], None)"
    by (simp add: ghostStore_def item_def ghost_key)
  have get: "level_get None ghostStore [js ''posts'', js ''ghost''] = Failed NotFoundError"
    by (simp add: level_get_def ghost_key) (simp add: ghostStore_def js_def)
  show ?thesis
    by (simp add: postsBy_def createReadStream_def enc_bounds ghost_scan items noQueryFaults_def
        onError_def asyncMap_def component2_def get)
qed

lemma orphan_postsBy:
  "postsBy noQueryFaults \<lparr>store = orphanStore, locks = []\<rparr> (js ''ana'') = [Ok []]"
  by (simp add: postsBy_def createReadStream_def enc_bounds orphan_scan noQueryFaults_def
      onError_def asyncMap_def)

text \<open>
  A key that does not decode: the stream reports the error and ends, and the callback is
  called twice, with the error and then with the posts of the slugs gathered before it
  (none here), whatever follows the key.
\<close>

definition brokenStore :: "(jsstring \<times> val) list" where
  "brokenStore = [(js ''by/ana/%zz'', VString []), (js ''by/ana/ghost'', VString [])]"

lemma broken_scan:
  "scan brokenStore (js ''by/ana/'') (js ''by/ana/~'') False None = brokenStore"
  by (simp add: scan_def records_def brokenStore_def List.map_filter_def js_def)

lemma broken_key: "decode (js ''by/ana/%zz'') = Inl URIError"
  by (simp add: codec_defs)

lemma postsBy_calls_back_twice:
  "postsBy noQueryFaults \<lparr>store = brokenStore, locks = []\<rparr> (js ''ana'')
     = [Failed URIError, Ok []]"
proof -
  let ?opts = "\<lparr>gte = [js ''by'', js ''ana'', []], lte = [js ''by'', js ''ana'', js ''~''],
                keys = True, values = False, limit = None, reverse = False\<rparr>"
  have items: "deliver (item ?opts) brokenStore = ([], Some URIError)"
    by (simp add: brokenStore_def item_def broken_key)
  show ?thesis
    by (simp add: postsBy_def createReadStream_def enc_bounds broken_scan items noQueryFaults_def
        onError_def asyncMap_def)
qed

text \<open>
  C9. The store holds the by-author record \<open>['by', 'ana', '~zed']\<close> and no record under
  \<open>['posts', '~zed']\<close>. \<open>postsBy(level, 'ana')\<close> calls back once, with no error and with
  the empty list: the record is passed over, not reported. (The record \<open>by/ana/ghost\<close>,
  within the bounds, is reported with the not-found error of its get.)
\<close>

theorem postsBy_passes_over_record_above_bound:
  "map_of orphanStore (js ''by/ana/~zed'') = Some (VString [])
   \<and> encode [js ''by'', js ''ana'', js ''~zed''] = Inr (js ''by/ana/~zed'')
   \<and> level_exists None orphanStore [js ''posts'', js ''~zed''] = Ok False
   \<and> postsBy noQueryFaults \<lparr>store = orphanStore, locks = []\<rparr> (js ''ana'') = [Ok []]
   \<and> level_exists None ghostStore [js ''posts'', js ''ghost''] = Ok False
   \<and> postsBy noQueryFaults \<lparr>store = ghostStore, locks = []\<rparr> (js ''ana'')
       = [Failed NotFoundError]"
proof -
  have "map_of orphanStore (js ''by/ana/~zed'') = Some (VString [])"
    by (simp add: orphanStore_def)
  moreover have "level_exists None orphanStore [js ''posts'', js ''~zed''] = Ok False"
    by (simp add: level_exists_def orphan_key) (simp add: orphanStore_def js_def)
  moreover have "level_exists None ghostStore [js ''posts'', js ''ghost''] = Ok False"
    by (simp add: level_exists_def ghost_key) (simp add: ghostStore_def js_def)
  ultimately show ?thesis
    by (simp add: orphan_key orphan_postsBy ghost_postsBy)
qed

section \<open>postsBy: the posts of an author\<close>

text \<open>
  \<open>escaped\<close>: a slug as its key component. \<open>beyondSentinel\<close>: the slug begins with
  \<open>~\<close> and goes on, so its key lies above the upper bound \<open>['by', name, '~']\<close> of the
  scan.
\<close>

definition escaped :: "jsstring \<Rightarrow> jsstring" where
  "escaped s = (case encodeURIComponent s of Inl e \<Rightarrow> [] | Inr r \<Rightarrow> r)"

definition beyondSentinel :: "jsstring \<Rightarrow> bool" where
  "beyondSentinel sl = (case sl of c # d # cs \<Rightarrow> c = 0x7E | _ \<Rightarrow> False)"

lemma escape_Cons: "\<exists>r. escape cp = 0x25 # r"
  by (auto simp: escape_def utf8Octets_def percent_def)

lemma encodeURIComponent_Cons:
  assumes "encodeURIComponent (c # cs) = Inr es"
  shows "\<exists>r. es = (if uriUnescaped c then c else 0x25) # r"
proof (cases "uriUnescaped c")
  case True
  with assms show ?thesis by (auto split: sum.splits)
next
  case False
  obtain r1 where r1: "escape (unat c) = 0x25 # r1" using escape_Cons by blast
  from False assms r1 show ?thesis
    using escape_Cons
    by (auto split: sum.splits if_splits list.splits) (metis append_Cons)+
qed

lemma tilde_literal: "js ''~'' = [0x7E]"
  by (simp add: js_def)

lemma tilde_unescaped: "uriUnescaped 0x7E"
  by (simp add: uriUnescaped_def)

lemma within_sentinel:
  assumes "encodeURIComponent sl = Inr es"
  shows "es \<le> js ''~'' \<longleftrightarrow> \<not> beyondSentinel sl"
proof (cases sl)
  case Nil
  with assms show ?thesis by (simp add: beyondSentinel_def)
next
  case (Cons c cs)
  from assms Cons obtain r where r: "es = (if uriUnescaped c then c else 0x25) # r"
    using encodeURIComponent_Cons by blast
  show ?thesis
  proof (cases "c = 0x7E")
    case True
    with assms Cons obtain es' where es': "encodeURIComponent cs = Inr es'" "es = 0x7E # es'"
      by (auto simp: tilde_unescaped split: sum.splits)
    show ?thesis
    proof (cases cs)
      case Nil
      with es' Cons True show ?thesis by (simp add: beyondSentinel_def tilde_literal)
    next
      case (Cons d ds)
      with es'(1) obtain r' where "es' = (if uriUnescaped d then d else 0x25) # r'"
        using encodeURIComponent_Cons by blast
      with es'(2) Cons \<open>sl = c # cs\<close> True show ?thesis
        by (simp add: beyondSentinel_def tilde_literal)
    qed
  next
    case False
    have "(if uriUnescaped c then c else 0x25) < 0x7E"
    proof (cases "uriUnescaped c")
      case True
      then have "c \<le> 0x7E" by (simp add: keyChar_le_tilde keyChar_def)
      with False True show ?thesis by simp
    next
      case False
      then show ?thesis by simp
    qed
    with r have "es \<le> js ''~''" by (simp add: tilde_literal)
    moreover from False Cons have "\<not> beyondSentinel sl"
      by (simp add: beyondSentinel_def split: list.splits)
    ultimately show ?thesis by simp
  qed
qed


lemma complete_record_cases:
  assumes "complete s" and "map_of s k = Some v"
  shows "\<exists>p ea ed es. posted s p
     \<and> encodeURIComponent (author p) = Inr ea \<and> encodeURIComponent (date p) = Inr ed
     \<and> encodeURIComponent (slug p) = Inr es
     \<and> (k = js ''by'' @ 0x2F # ea @ 0x2F # es \<and> v = VString []
        \<or> k = js ''date'' @ 0x2F # ed @ 0x2F # es \<and> v = VSummary (summary.truncate p)
        \<or> k = js ''posts'' @ 0x2F # es \<and> v = VPost p)"
proof -
  from assms obtain p P where p: "mapResult encodeOp (batch p) = Inr P" "(k, v) \<in> set P"
    "\<forall>kv\<in>set P. map_of s (fst kv) = Some (snd kv)"
    unfolding complete_def by blast
  from p(1,3) have "posted s p" unfolding posted_def by blast
  with p(1,2) show ?thesis
    by (auto simp: encoded_batch encode3 encode2 encodeURIComponent_literals split: sum.splits)
qed

lemma posted_keys:
  assumes "posted s p"
  shows "\<exists>ea ed es. encodeURIComponent (author p) = Inr ea
     \<and> encodeURIComponent (date p) = Inr ed \<and> encodeURIComponent (slug p) = Inr es
     \<and> map_of s (js ''by'' @ 0x2F # ea @ 0x2F # es) = Some (VString [])
     \<and> map_of s (js ''date'' @ 0x2F # ed @ 0x2F # es) = Some (VSummary (summary.truncate p))
     \<and> map_of s (js ''posts'' @ 0x2F # es) = Some (VPost p)"
  using assms
  by (auto simp: posted_def encoded_batch encode3 encode2 encodeURIComponent_literals
      split: sum.splits)

lemma by_slash: "js ''by/'' = js ''by'' @ [0x2F]"
  by (simp add: js_def)

lemma by_range_record:
  assumes c: "complete s" and rec: "map_of s k = Some v"
    and en: "encodeURIComponent name = Inr en"
    and lo: "js ''by/'' @ en @ [0x2F] \<le> k" and hi: "k \<le> (js ''by/'' @ en @ [0x2F]) @ js ''~''"
  shows "\<exists>p es. posted s p \<and> author p = name \<and> encodeURIComponent (slug p) = Inr es
     \<and> es \<le> js ''~'' \<and> k = (js ''by/'' @ en @ [0x2F]) @ es \<and> v = VString []"
proof -
  from between_prefix [OF lo hi [unfolded tilde_literal]] obtain r where
    r: "k = (js ''by/'' @ en @ [0x2F]) @ r" "r \<le> [0x7E]" by blast
  from complete_record_cases [OF c rec] obtain p ea ed es where
    p: "posted s p" "encodeURIComponent (author p) = Inr ea"
      "encodeURIComponent (date p) = Inr ed" "encodeURIComponent (slug p) = Inr es"
    and k: "k = js ''by'' @ 0x2F # ea @ 0x2F # es \<and> v = VString []
        \<or> k = js ''date'' @ 0x2F # ed @ 0x2F # es \<and> v = VSummary (summary.truncate p)
        \<or> k = js ''posts'' @ 0x2F # es \<and> v = VPost p"
    by blast
  from k r(1) have kby: "k = js ''by'' @ 0x2F # ea @ 0x2F # es" "v = VString []"
    by (auto simp: js_def)
  with r(1) have "ea @ 0x2F # es = en @ 0x2F # r" by (simp add: by_slash)
  from sep_split_unique [OF this encodeURIComponent_no_slash [OF p(2)]
      encodeURIComponent_no_slash [OF en]]
  have "ea = en" "es = r" by simp_all
  with p(2) en have "author p = name" by (auto intro: encodeURIComponent_inject)
  with p(1,4) r \<open>es = r\<close> kby(2) show ?thesis by (auto simp: tilde_literal)
qed

lemma asyncMap_map_all_Ok:
  assumes "\<forall>x\<in>set xs. f (c x) = Ok (g x)"
  shows "asyncMap (map c xs) f = Ok (map g xs)"
proof -
  from assms have "\<forall>y\<in>set (map c xs). \<exists>z. f y = Ok z" by auto
  then have "thrown (map f (map c xs)) = None" "failed (map f (map c xs)) = None"
    by (auto simp: thrown_None failed_None)
  moreover from assms have "results (map f (map c xs)) = map g xs"
    by (induction xs) auto
  ultimately show ?thesis by (simp add: asyncMap_def)
qed

lemma sorted_wrt_mono_on:
  assumes "sorted_wrt P xs" and "\<forall>x\<in>set xs. \<forall>y\<in>set xs. P x y \<longrightarrow> Q x y"
  shows "sorted_wrt Q xs"
  using assms by (induction xs) auto

lemma records_strictly_sorted: "sorted_wrt (\<lambda>a b. fst a < fst b) (records s)"
proof -
  have "sorted_wrt (<) (map fst (records s))"
    using records_sorted [of s] by (simp add: strict_sorted_iff)
  then show ?thesis by (simp add: sorted_wrt_map)
qed

subsection \<open>Two runs\<close>

text \<open>
  A post whose slug is \<open>~zed\<close> is stored and can be read by its key, and \<open>postsBy\<close> of
  its author returns no post. Of two posts with the slugs \<open>a b\<close> and \<open>a!\<close>, the one
  with \<open>a!\<close> comes first (\<open>a%20b\<close> sorts after \<open>a!\<close>), though \<open>a b\<close> is the smaller
  slug.
\<close>

definition tildePost :: post where
  "tildePost =
     \<lparr>title = js ''Tilde'', date = js ''2016-01-04'', author = js ''ana'',
      slug = js ''~zed'', text = js ''Hidden.''\<rparr>"

definition spacePost :: post where
  "spacePost =
     \<lparr>title = js ''Space'', date = js ''2016-01-05'', author = js ''ana'',
      slug = js ''a b'', text = js ''First.''\<rparr>"

definition bangPost :: post where
  "bangPost =
     \<lparr>title = js ''Bang'', date = js ''2016-01-06'', author = js ''ana'',
      slug = js ''a!'', text = js ''Second.''\<rparr>"

lemma example_level:
  "fst (putPost noFaults (fst (putPost noFaults (fst (putPost noFaults emptyLevel firstByAna))
      secondByBob)) thirdByAna) = \<lparr>store = store3, locks = []\<rparr>"
  by (simp add: step1 step2 step3)

lemma tilde_keys:
  "encode [js ''posts'', js ''~zed''] = Inr (js ''posts/~zed'')"
  "encode [js ''by'', js ''ana'', js ''~zed''] = Inr (js ''by/ana/~zed'')"
  "encode [js ''date'', js ''2016-01-04'', js ''~zed''] = Inr (js ''date/2016-01-04/~zed'')"
  by (simp_all add: codec_defs)

definition tildeStore :: "(jsstring \<times> val) list" where
  "tildeStore = [(js ''by/ana/~zed'', VString []),
     (js ''date/2016-01-04/~zed'', VSummary (summary.truncate tildePost)),
     (js ''posts/~zed'', VPost tildePost)]"

lemma tilde_stored: "applyPuts [] [(js ''by/ana/~zed'', VString []),
     (js ''date/2016-01-04/~zed'', VSummary (summary.truncate tildePost)),
     (js ''posts/~zed'', VPost tildePost)] = tildeStore"
  by (simp add: tildeStore_def js_def)

lemma tilde_level:
  "fst (putPost noFaults emptyLevel tildePost) = \<lparr>store = tildeStore, locks = []\<rparr>"
proof -
  have "putPost noFaults emptyLevel tildePost =
     (emptyLevel\<lparr>store := applyPuts (store emptyLevel)
         [(js ''by/ana/~zed'', VString []),
          (js ''date/2016-01-04/~zed'', VSummary (summary.truncate tildePost)),
          (js ''posts/~zed'', VPost tildePost)]\<rparr>,
      [Locked (postKey tildePost), ExistsCalled (postKey tildePost), BatchCalled (batch tildePost),
       Unlocked (postKey tildePost), Callback None])"
    by (rule putPost_stored) (simp_all add: emptyLevel_def postKey_def tildePost_def tilde_keys)
  then show ?thesis by (simp add: emptyLevel_def tilde_stored del: applyPuts.simps)
qed

lemma tilde_scan: "scan tildeStore (js ''by/ana/'') (js ''by/ana/~'') False None = []"
  by (simp add: scan_def records_def tildeStore_def js_def List.map_filter_def)

lemma tilde_postsBy:
  "postsBy noQueryFaults \<lparr>store = tildeStore, locks = []\<rparr> (js ''ana'') = [Ok []]"
  by (simp add: postsBy_def createReadStream_def enc_bounds tilde_scan asyncMap_def
      noQueryFaults_def onError_def)

lemma tilde_get:
  "level_get None tildeStore [js ''posts'', js ''~zed''] = Ok (VPost tildePost)"
  by (simp add: level_get_def tilde_keys) (simp add: tildeStore_def js_def)


lemma order_keys:
  "encode [js ''posts'', js ''a b''] = Inr (js ''posts/a%20b'')"
  "encode [js ''by'', js ''ana'', js ''a b''] = Inr (js ''by/ana/a%20b'')"
  "encode [js ''date'', js ''2016-01-05'', js ''a b''] = Inr (js ''date/2016-01-05/a%20b'')"
  "encode [js ''posts'', js ''a!''] = Inr (js ''posts/a!'')"
  "encode [js ''by'', js ''ana'', js ''a!''] = Inr (js ''by/ana/a!'')"
  "encode [js ''date'', js ''2016-01-06'', js ''a!''] = Inr (js ''date/2016-01-06/a!'')"
  by (simp_all add: codec_defs)

definition spaceStore :: "(jsstring \<times> val) list" where
  "spaceStore = [(js ''by/ana/a%20b'', VString []),
     (js ''date/2016-01-05/a%20b'', VSummary (summary.truncate spacePost)),
     (js ''posts/a%20b'', VPost spacePost)]"

definition bangStore :: "(jsstring \<times> val) list" where
  "bangStore = spaceStore @ [(js ''by/ana/a!'', VString []),
     (js ''date/2016-01-06/a!'', VSummary (summary.truncate bangPost)),
     (js ''posts/a!'', VPost bangPost)]"

lemma space_stored: "applyPuts [] [(js ''by/ana/a%20b'', VString []),
     (js ''date/2016-01-05/a%20b'', VSummary (summary.truncate spacePost)),
     (js ''posts/a%20b'', VPost spacePost)] = spaceStore"
  by (simp add: spaceStore_def js_def)

lemma bang_stored: "applyPuts spaceStore [(js ''by/ana/a!'', VString []),
     (js ''date/2016-01-06/a!'', VSummary (summary.truncate bangPost)),
     (js ''posts/a!'', VPost bangPost)] = bangStore"
  by (simp add: spaceStore_def bangStore_def js_def)

lemma bang_fresh: "map_of spaceStore (js ''posts/a!'') = None"
  by (simp add: spaceStore_def js_def)

lemma space_level:
  "fst (putPost noFaults emptyLevel spacePost) = \<lparr>store = spaceStore, locks = []\<rparr>"
proof -
  have "putPost noFaults emptyLevel spacePost =
     (emptyLevel\<lparr>store := applyPuts (store emptyLevel)
         [(js ''by/ana/a%20b'', VString []),
          (js ''date/2016-01-05/a%20b'', VSummary (summary.truncate spacePost)),
          (js ''posts/a%20b'', VPost spacePost)]\<rparr>,
      [Locked (postKey spacePost), ExistsCalled (postKey spacePost), BatchCalled (batch spacePost),
       Unlocked (postKey spacePost), Callback None])"
    by (rule putPost_stored) (simp_all add: emptyLevel_def postKey_def spacePost_def order_keys)
  then show ?thesis by (simp add: emptyLevel_def space_stored del: applyPuts.simps)
qed

lemma bang_level:
  "fst (putPost noFaults \<lparr>store = spaceStore, locks = []\<rparr> bangPost)
     = \<lparr>store = bangStore, locks = []\<rparr>"
proof -
  let ?l = "\<lparr>store = spaceStore, locks = []\<rparr>"
  have "putPost noFaults ?l bangPost =
     (?l\<lparr>store := applyPuts (store ?l)
         [(js ''by/ana/a!'', VString []),
          (js ''date/2016-01-06/a!'', VSummary (summary.truncate bangPost)),
          (js ''posts/a!'', VPost bangPost)]\<rparr>,
      [Locked (postKey bangPost), ExistsCalled (postKey bangPost), BatchCalled (batch bangPost),
       Unlocked (postKey bangPost), Callback None])"
    by (rule putPost_stored) (simp_all add: postKey_def bangPost_def order_keys bang_fresh)
  then show ?thesis by (simp add: bang_stored del: applyPuts.simps)
qed

lemma bang_scan: "scan bangStore (js ''by/ana/'') (js ''by/ana/~'') False None =
    [(js ''by/ana/a!'', VString []), (js ''by/ana/a%20b'', VString [])]"
  by (simp add: scan_def records_def bangStore_def spaceStore_def js_def List.map_filter_def)

lemma bang_decode:
  "decode (js ''by/ana/a!'') = Inr [js ''by'', js ''ana'', js ''a!'']"
  "decode (js ''by/ana/a%20b'') = Inr [js ''by'', js ''ana'', js ''a b'']"
  using decode_encode [OF order_keys(5)] decode_encode [OF order_keys(2)] by simp_all

lemma bang_gets:
  "map_of bangStore (js ''posts/a!'') = Some (VPost bangPost)"
  "map_of bangStore (js ''posts/a%20b'') = Some (VPost spacePost)"
  by (simp_all add: bangStore_def spaceStore_def js_def)

lemma bang_postsBy:
  "postsBy noQueryFaults \<lparr>store = bangStore, locks = []\<rparr> (js ''ana'')
     = [Ok [VPost bangPost, VPost spacePost]]"
  by (simp add: postsBy_def createReadStream_def enc_bounds bang_scan item_def bang_decode
      onError_def component2_def asyncMap_def noQueryFaults_def level_get_def order_keys
      bang_gets)

lemma tilde_put:
  "snd (putPost noFaults emptyLevel tildePost) =
     [Locked (postKey tildePost), ExistsCalled (postKey tildePost), BatchCalled (batch tildePost),
      Unlocked (postKey tildePost), Callback None]"
proof -
  have "putPost noFaults emptyLevel tildePost =
     (emptyLevel\<lparr>store := applyPuts (store emptyLevel)
         [(js ''by/ana/~zed'', VString []),
          (js ''date/2016-01-04/~zed'', VSummary (summary.truncate tildePost)),
          (js ''posts/~zed'', VPost tildePost)]\<rparr>,
      [Locked (postKey tildePost), ExistsCalled (postKey tildePost), BatchCalled (batch tildePost),
       Unlocked (postKey tildePost), Callback None])"
    by (rule putPost_stored) (simp_all add: emptyLevel_def postKey_def tildePost_def tilde_keys)
  then show ?thesis by simp
qed

text \<open>
  The order of the results is the order of the keys, that is of the escaped slugs: the
  post with the slug \<open>a!\<close> comes before the one with the slug \<open>a b\<close>, whose key is
  \<open>by/ana/a%20b\<close>.
\<close>

lemma postsBy_orders_by_escaped_slug:
  "postsBy noQueryFaults
      (fst (putPost noFaults (fst (putPost noFaults emptyLevel spacePost)) bangPost))
      (js ''ana'') = [Ok [VPost bangPost, VPost spacePost]]
   \<and> slug spacePost < slug bangPost"
  by (simp add: space_level bang_level bang_postsBy)
     (simp add: spacePost_def bangPost_def js_def)

text \<open>
  C6. \<open>putPost\<close> stores the post \<open>tildePost\<close>, written by \<open>ana\<close> under the slug \<open>~zed\<close>, and
  calls back with no error; a get of \<open>['posts', '~zed']\<close> returns it. Its by-author key
  \<open>by/ana/~zed\<close> lies above the upper bound \<open>by/ana/~\<close> of the scan, so
  \<open>postsBy(level, 'ana')\<close> calls back with the empty list: a post of the author is
  missing from the result.
\<close>

theorem postsBy_misses_post_above_bound:
  "snd (putPost noFaults emptyLevel tildePost) =
     [Locked (postKey tildePost), ExistsCalled (postKey tildePost), BatchCalled (batch tildePost),
      Unlocked (postKey tildePost), Callback None]
   \<and> level_get None (store (fst (putPost noFaults emptyLevel tildePost)))
        [js ''posts'', js ''~zed''] = Ok (VPost tildePost)
   \<and> author tildePost = js ''ana''
   \<and> postsBy noQueryFaults (fst (putPost noFaults emptyLevel tildePost)) (js ''ana'') = [Ok []]"
  by (simp add: tilde_put tilde_level tilde_get tilde_postsBy)
     (simp add: tildePost_def)

subsection \<open>What postsBy returns within the bounds\<close>

text \<open>
  In every store reachable through \<open>putPost\<close>, for every well-formed author name,
  \<open>postsBy\<close> (the store reporting no failure) calls back once, with the full records of
  the posts stored with that author whose by-author key lies within the bounds of the scan
  (the slug is \<open>~\<close> itself or does not begin with \<open>~\<close>), each once, in ascending order
  of the escaped slug; that is ascending slug order when the slugs consist of characters
  that \<open>encodeURIComponent\<close> leaves unescaped.
\<close>

lemma postsBy_within_bounds:
  assumes reach: "reachable lvl" and wf: "wellFormed name"
  shows "\<exists>ps. postsBy noQueryFaults lvl name = [Ok (map VPost ps)]
     \<and> set ps = {p. posted (store lvl) p \<and> author p = name \<and> \<not> beyondSentinel (slug p)}
     \<and> sorted_wrt (\<lambda>p q. escaped (slug p) < escaped (slug q)) ps
     \<and> ((\<forall>p\<in>set ps. \<forall>c\<in>set (slug p). uriUnescaped c)
          \<longrightarrow> sorted_wrt (\<lambda>p q. slug p < slug q) ps)"
proof -
  let ?s = "store lvl"
  have c: "complete ?s" using reach by (rule reachable_complete)
  from wf obtain en where en: "encodeURIComponent name = Inr en"
    using encodeURIComponent_wellFormed [of name] by auto
  let ?pre = "js ''by/'' @ en @ [0x2F]"
  let ?R = "filter (\<lambda>kv. ?pre \<le> fst kv \<and> fst kv \<le> ?pre @ js ''~'') (records ?s)"
  let ?opts = "\<lparr>gte = [js ''by'', name, []], lte = [js ''by'', name, js ''~''],
                keys = True, values = False, limit = None, reverse = False\<rparr>"
  have lo: "encode [js ''by'', name, []] = Inr ?pre"
    and hi: "encode [js ''by'', name, js ''~''] = Inr (?pre @ js ''~'')"
    using en by (simp_all add: encode3 encodeURIComponent_literals by_slash)
  have inR: "\<exists>p. posted ?s p \<and> author p = name \<and> escaped (slug p) \<le> js ''~''
      \<and> fst kv = ?pre @ escaped (slug p) \<and> snd kv = VString []"
    if "kv \<in> set ?R" for kv
  proof -
    from that have "map_of ?s (fst kv) = Some (snd kv)" "?pre \<le> fst kv"
      "fst kv \<le> ?pre @ js ''~''"
      using records_set [of "fst kv" "snd kv" ?s] by auto
    from by_range_record [OF c this(1) en this(2,3)] show ?thesis
      by (auto simp: escaped_def)
  qed
  then have "\<forall>kv\<in>set ?R. \<exists>p. posted ?s p \<and> author p = name
      \<and> escaped (slug p) \<le> js ''~''
      \<and> fst kv = ?pre @ escaped (slug p) \<and> snd kv = VString []"
    by blast
  from bchoice [OF this]
  obtain h where h: "\<forall>kv\<in>set ?R. posted ?s (h kv) \<and> author (h kv) = name
      \<and> escaped (slug (h kv)) \<le> js ''~''
      \<and> fst kv = ?pre @ escaped (slug (h kv)) \<and> snd kv = VString []"
    by blast
  note hr = h [rule_format]
  let ?ps = "map h ?R"
  have enc_slug: "encodeURIComponent (slug p) = Inr (escaped (slug p))" if "posted ?s p" for p
    using posted_keys [OF that] by (auto simp: escaped_def)
  have by_key: "encode [js ''by'', name, slug p] = Inr (?pre @ escaped (slug p))"
    if "posted ?s p" for p
    using enc_slug [OF that] en by (simp add: encode3 encodeURIComponent_literals by_slash)
  have items: "mapResult (item ?opts) ?R
      = Inr (map (\<lambda>kv. (Some [js ''by'', name, slug (h kv)], None)) ?R)"
  proof (rule mapResult_map, rule ballI)
    fix kv assume kv: "kv \<in> set ?R"
    from hr [OF kv] have p: "posted ?s (h kv)" and k: "fst kv = ?pre @ escaped (slug (h kv))"
      by simp_all
    from decode_encode [OF by_key [OF p]] k
    show "item ?opts kv = Inr (Some [js ''by'', name, slug (h kv)], None)"
      by (simp add: item_def)
  qed
  have stream: "createReadStream None ?s ?opts
      = Events (map (\<lambda>kv. (Some [js ''by'', name, slug (h kv)], None)) ?R) None"
    using deliver_mapResult [OF items] by (simp add: createReadStream_def lo hi scan_forward)
  have gets: "\<forall>kv\<in>set ?R.
      level_get None ?s [js ''posts'', slug (h kv)] = Ok (VPost (h kv))"
  proof
    fix kv assume "kv \<in> set ?R"
    from hr [OF this] have "posted ?s (h kv)" by simp
    then show "level_get None ?s [js ''posts'', slug (h kv)] = Ok (VPost (h kv))"
      by (simp add: posted_records)
  qed
  have "asyncMap (map (\<lambda>kv. slug (h kv)) ?R) (\<lambda>slug. level_get None ?s [js ''posts'', slug])
      = Ok (map (\<lambda>kv. VPost (h kv)) ?R)"
    using gets
    by (rule asyncMap_map_all_Ok [where c = "\<lambda>kv. slug (h kv)"
          and f = "\<lambda>slug. level_get None ?s [js ''posts'', slug]"
          and g = "\<lambda>kv. VPost (h kv)"])
  then have result: "postsBy noQueryFaults lvl name = [Ok (map VPost ?ps)]"
    by (simp add: postsBy_def noQueryFaults_def stream onError_def comp_def component2_def)
  have "set ?ps = {p. posted ?s p \<and> author p = name \<and> \<not> beyondSentinel (slug p)}"
  proof (intro equalityI subsetI)
    fix p assume "p \<in> set ?ps"
    then obtain kv where kv: "kv \<in> set ?R" "p = h kv" by auto
    from hr [OF kv(1)] kv(2)
    have "posted ?s p" "author p = name" "escaped (slug p) \<le> js ''~''" by simp_all
    with within_sentinel [OF enc_slug [OF this(1)]]
    show "p \<in> {p. posted ?s p \<and> author p = name \<and> \<not> beyondSentinel (slug p)}" by simp
  next
    fix p assume "p \<in> {p. posted ?s p \<and> author p = name \<and> \<not> beyondSentinel (slug p)}"
    then have p: "posted ?s p" "author p = name" "\<not> beyondSentinel (slug p)" by auto
    from p(3) within_sentinel [OF enc_slug [OF p(1)]]
    have rng: "escaped (slug p) \<le> js ''~''" by simp
    from p(1,2) have "level_get None ?s [js ''by'', name, slug p] = Ok (VString [])"
      by (auto simp: posted_records)
    with by_key [OF p(1)] have "map_of ?s (?pre @ escaped (slug p)) = Some (VString [])"
      by (simp add: level_get_Ok)
    then have "(?pre @ escaped (slug p), VString []) \<in> set (records ?s)"
      by (simp add: records_set)
    moreover have "?pre \<le> ?pre @ escaped (slug p)"
      using append_le_append [of ?pre "[]" "escaped (slug p)"] by simp
    moreover have "?pre @ escaped (slug p) \<le> ?pre @ js ''~''"
      using rng by (simp only: append_le_append)
    ultimately have kv: "(?pre @ escaped (slug p), VString []) \<in> set ?R" by simp
    from hr [OF kv] have q: "posted ?s (h (?pre @ escaped (slug p), VString []))"
      "?pre @ escaped (slug p) = ?pre @ escaped (slug (h (?pre @ escaped (slug p), VString [])))"
      by simp_all
    from q(2) have "escaped (slug p) = escaped (slug (h (?pre @ escaped (slug p), VString [])))"
      by simp
    with enc_slug [OF p(1)] enc_slug [OF q(1)]
    have "slug p = slug (h (?pre @ escaped (slug p), VString []))"
      by (auto intro: encodeURIComponent_inject)
    from posted_same_slug [OF p(1) q(1) this] kv show "p \<in> set ?ps" by force
  qed
  moreover have sorted: "sorted_wrt (\<lambda>p q. escaped (slug p) < escaped (slug q)) ?ps"
  proof -
    have "sorted_wrt (\<lambda>a b. fst a < fst b) ?R"
      using records_strictly_sorted by (rule sorted_wrt_filter)
    then have "sorted_wrt (\<lambda>a b. escaped (slug (h a)) < escaped (slug (h b))) ?R"
    proof (rule sorted_wrt_mono_on, intro ballI impI)
      fix a b assume ab: "a \<in> set ?R" "b \<in> set ?R" "fst a < fst b"
      from hr [OF ab(1)] hr [OF ab(2)] ab(3)
      have "?pre @ escaped (slug (h a)) < ?pre @ escaped (slug (h b))" by simp
      then show "escaped (slug (h a)) < escaped (slug (h b))"
        by (simp only: append_less_append)
    qed
    then show ?thesis by (simp add: sorted_wrt_map)
  qed
  moreover have "sorted_wrt (\<lambda>p q. slug p < slug q) ?ps"
    if "\<forall>p\<in>set ?ps. \<forall>c\<in>set (slug p). uriUnescaped c"
  proof -
    from that have "\<forall>p\<in>set ?ps. escaped (slug p) = slug p"
      by (simp add: escaped_def encodeURIComponent_unescaped)
    with sorted show ?thesis
      by (intro sorted_wrt_mono_on [OF sorted]) auto
  qed
  ultimately show ?thesis using result by blast
qed

section \<open>oldestPosts: a number of posts in date order\<close>

text \<open>
  \<open>isoDate\<close>: a date of the form YYYY-MM-DD, as the posts of the example have.
\<close>

definition isDigit :: "codeunit \<Rightarrow> bool" where
  "isDigit c \<longleftrightarrow> 0x30 \<le> c \<and> c \<le> 0x39"

definition isoDate :: "jsstring \<Rightarrow> bool" where
  "isoDate d \<longleftrightarrow>
     length d = 10 \<and> d ! 4 = 0x2D \<and> d ! 7 = 0x2D
     \<and> isDigit (d ! 0) \<and> isDigit (d ! 1) \<and> isDigit (d ! 2) \<and> isDigit (d ! 3)
     \<and> isDigit (d ! 5) \<and> isDigit (d ! 6) \<and> isDigit (d ! 8) \<and> isDigit (d ! 9)"

lemma isoDate_unescaped:
  assumes "isoDate d" shows "\<forall>c\<in>set d. uriUnescaped c"
proof -
  have "uriUnescaped (d ! i)" if "i < 10" for i
  proof -
    from that have "i = 0 \<or> i = 1 \<or> i = 2 \<or> i = 3 \<or> i = 4 \<or> i = 5 \<or> i = 6 \<or> i = 7
        \<or> i = 8 \<or> i = 9" by arith
    with assms show ?thesis
      by (auto simp: isoDate_def isDigit_def uriUnescaped_def)
  qed
  moreover from assms have "length d = 10" by (simp add: isoDate_def)
  ultimately show ?thesis by (auto simp: in_set_conv_nth)
qed

lemma date_slash: "js ''date/'' = js ''date'' @ [0x2F]"
  by (simp add: js_def)

lemma date_range_record:
  assumes c: "complete s" and rec: "map_of s k = Some v"
    and lo: "js ''date/'' \<le> k" and hi: "k \<le> js ''date/'' @ js ''~''"
  shows "\<exists>p ed es. posted s p \<and> encodeURIComponent (date p) = Inr ed
     \<and> k = js ''date/'' @ ed @ 0x2F # es \<and> v = VSummary (summary.truncate p)"
proof -
  from between_prefix [OF lo hi [unfolded tilde_literal]] obtain r where
    r: "k = js ''date/'' @ r" by blast
  from complete_record_cases [OF c rec] obtain p ea ed es where
    p: "posted s p" "encodeURIComponent (date p) = Inr ed"
    and k: "k = js ''by'' @ 0x2F # ea @ 0x2F # es \<and> v = VString []
        \<or> k = js ''date'' @ 0x2F # ed @ 0x2F # es \<and> v = VSummary (summary.truncate p)
        \<or> k = js ''posts'' @ 0x2F # es \<and> v = VPost p"
    by blast
  from k r have "k = js ''date'' @ 0x2F # ed @ 0x2F # es" "v = VSummary (summary.truncate p)"
    by (auto simp: js_def)
  with p show ?thesis by (auto simp: date_slash)
qed

lemma pushed_values: "pushed (map (\<lambda>kv. (None, Some (f kv))) xs) = map f xs"
  by (induction xs) (simp_all add: pushed_def List.map_filter_simps)

lemma sorted_wrt_take: "sorted_wrt P xs \<Longrightarrow> sorted_wrt P (take n xs)"
proof (induction xs arbitrary: n)
  case Nil
  then show ?case by simp
next
  case (Cons x xs)
  then show ?case by (cases n) (auto dest: in_set_takeD)
qed

lemma oldest_posts:
  assumes reach: "reachable lvl"
    and iso: "\<forall>p. posted (store lvl) p \<longrightarrow> isoDate (date p)"
  shows "\<exists>ps. oldestPosts None lvl howMany = [Ok (map (\<lambda>p. VSummary (summary.truncate p)) ps)]
     \<and> length ps \<le> howMany
     \<and> (\<forall>p\<in>set ps. posted (store lvl) p)
     \<and> sorted_wrt (\<lambda>p q. date q \<le> date p) ps"
proof -
  let ?s = "store lvl"
  have c: "complete ?s" using reach by (rule reachable_complete)
  let ?R = "filter (\<lambda>kv. js ''date/'' \<le> fst kv \<and> fst kv \<le> js ''date/'' @ js ''~'') (records ?s)"
  let ?opts = "\<lparr>gte = [js ''date'', []], lte = [js ''date'', js ''~''],
                keys = False, values = True, limit = Some howMany, reverse = True\<rparr>"
  have lo: "encode [js ''date'', []] = Inr (js ''date/'')"
    and hi: "encode [js ''date'', js ''~''] = Inr (js ''date/'' @ js ''~'')"
    by (simp_all add: encode2 encodeURIComponent_literals date_slash)
  have "\<forall>kv\<in>set ?R. \<exists>p. posted ?s p
      \<and> (\<exists>rest. fst kv = js ''date/'' @ date p @ rest) \<and> snd kv = VSummary (summary.truncate p)"
  proof
    fix kv assume "kv \<in> set ?R"
    then have "map_of ?s (fst kv) = Some (snd kv)" "js ''date/'' \<le> fst kv"
      "fst kv \<le> js ''date/'' @ js ''~''"
      using records_set [of "fst kv" "snd kv" ?s] by auto
    from date_range_record [OF c this] obtain p ed es where
      p: "posted ?s p" "encodeURIComponent (date p) = Inr ed"
        "fst kv = js ''date/'' @ ed @ 0x2F # es" "snd kv = VSummary (summary.truncate p)"
      by blast
    from iso p(1) have "isoDate (date p)" by blast
    then have "encodeURIComponent (date p) = Inr (date p)"
      by (intro encodeURIComponent_unescaped isoDate_unescaped)
    with p(2) have "ed = date p" by simp
    with p show "\<exists>p. posted ?s p
      \<and> (\<exists>rest. fst kv = js ''date/'' @ date p @ rest) \<and> snd kv = VSummary (summary.truncate p)"
      by blast
  qed
  from bchoice [OF this]
  obtain h where h: "\<forall>kv\<in>set ?R. posted ?s (h kv)
      \<and> (\<exists>rest. fst kv = js ''date/'' @ date (h kv) @ rest)
      \<and> snd kv = VSummary (summary.truncate (h kv))"
    by blast
  note hr = h [rule_format]
  let ?T = "take howMany (rev ?R)"
  let ?ps = "map h ?T"
  have sub: "kv \<in> set ?R" if "kv \<in> set ?T" for kv
    using that by (auto dest: in_set_takeD)
  have scan: "scan ?s (js ''date/'') (js ''date/'' @ js ''~'') True (Some howMany) = ?T"
    by (simp add: scan_def)
  have "mapResult (item ?opts) ?T = Inr (map (\<lambda>kv. (None, Some (snd kv))) ?T)"
    by (rule mapResult_map) (simp add: item_def)
  then have stream: "createReadStream None ?s ?opts
      = Events (map (\<lambda>kv. (None, Some (snd kv))) ?T) None"
    using scan by (simp add: createReadStream_def lo hi deliver_mapResult)
  have "map snd ?T = map (\<lambda>kv. VSummary (summary.truncate (h kv))) ?T"
    using hr [OF sub] by (intro map_cong) simp_all
  then have result: "oldestPosts None lvl howMany
      = [Ok (map (\<lambda>p. VSummary (summary.truncate p)) ?ps)]"
    by (simp add: oldestPosts_def stream onError_def pushed_values comp_def)
  have len: "length ?ps \<le> howMany" by simp
  have posted: "\<forall>p\<in>set ?ps. posted ?s p" using hr [OF sub] by auto
  have "sorted_wrt (\<lambda>a b. fst a < fst b) ?R"
    using records_strictly_sorted by (rule sorted_wrt_filter)
  then have "sorted_wrt (\<lambda>a b. fst b < fst a) (rev ?R)"
    by (simp add: sorted_wrt_rev)
  then have "sorted_wrt (\<lambda>a b. fst b < fst a) ?T" by (rule sorted_wrt_take)
  then have "sorted_wrt (\<lambda>a b. date (h b) \<le> date (h a)) ?T"
  proof (rule sorted_wrt_mono_on, intro ballI impI)
    fix a b assume ab: "a \<in> set ?T" "b \<in> set ?T" "fst b < fst a"
    from hr [OF sub [OF ab(1)]] obtain ra where
      a: "posted ?s (h a)" "fst a = js ''date/'' @ date (h a) @ ra" by blast
    from hr [OF sub [OF ab(2)]] obtain rb where
      b: "posted ?s (h b)" "fst b = js ''date/'' @ date (h b) @ rb" by blast
    from iso a(1) b(1) have "length (date (h b)) = length (date (h a))"
      by (simp add: isoDate_def)
    moreover from ab(3) a(2) b(2)
    have "js ''date/'' @ date (h b) @ rb < js ''date/'' @ date (h a) @ ra" by simp
    then have "date (h b) @ rb \<le> date (h a) @ ra"
      by (simp only: append_less_append less_imp_le)
    ultimately show "date (h b) \<le> date (h a)" by (rule same_length_le)
  qed
  then have "sorted_wrt (\<lambda>p q. date q \<le> date p) ?ps" by (simp add: sorted_wrt_map)
  with result len posted show ?thesis by blast
qed

lemma posted_store3:
  assumes "posted store3 p"
  shows "p = firstByAna \<or> p = secondByBob \<or> p = thirdByAna"
proof -
  from assms obtain k where "map_of store3 k = Some (VPost p)"
    by (auto simp: posted_records level_get_Ok)
  then have "(k, VPost p) \<in> set store3" by (rule map_of_SomeD)
  then show ?thesis by (auto simp: store3_def store2_def store1_def)
qed

lemma example_dates:
  "isoDate (date firstByAna)" "isoDate (date secondByBob)" "isoDate (date thirdByAna)"
  by (simp_all add: example_posts isoDate_def isDigit_def js_def)

text \<open>
  C3. In every store reachable through \<open>putPost\<close> whose posts have YYYY-MM-DD dates, for
  every \<open>howMany\<close>, \<open>oldestPosts\<close> (the store reporting no failure) calls back once, with
  at most \<open>howMany\<close> values, each the date-index projection of a stored post, in descending
  order of the date (what \<open>reverse: true\<close> yields over ascending date keys); and after
  the three posts of the example, \<open>oldestPosts(level, 2)\<close> returns the projection of
  \<open>ana-2\<close> followed by that of \<open>bob-1\<close>.
\<close>

theorem oldestPosts_limited_descending:
  "(reachable lvl \<and> (\<forall>p. posted (store lvl) p \<longrightarrow> isoDate (date p)) \<longrightarrow>
      (\<exists>ps. oldestPosts None lvl howMany = [Ok (map (\<lambda>p. VSummary (summary.truncate p)) ps)]
         \<and> length ps \<le> howMany
         \<and> (\<forall>p\<in>set ps. posted (store lvl) p)
         \<and> sorted_wrt (\<lambda>p q. date q \<le> date p) ps))
   \<and> oldestPosts None
        (fst (putPost noFaults (fst (putPost noFaults (fst (putPost noFaults emptyLevel
           firstByAna)) secondByBob)) thirdByAna)) 2
      = [Ok [VSummary (summary.truncate thirdByAna), VSummary (summary.truncate secondByBob)]]"
  using oldest_posts [of lvl howMany] by (simp add: example_level oldestPosts_example)

theorem oldestPosts_limited_descending_witness:
  "reachable \<lparr>store = store3, locks = []\<rparr>
   \<and> isoDate (date firstByAna) \<and> isoDate (date secondByBob) \<and> isoDate (date thirdByAna)
   \<and> (\<exists>ps :: post list. oldestPosts None \<lparr>store = store3, locks = []\<rparr> 2
          = [Ok (map (\<lambda>p. VSummary (summary.truncate p)) ps)]
        \<and> length ps \<le> 2 \<and> sorted_wrt (\<lambda>p q. date q \<le> date p) ps)"
proof -
  let ?l = "\<lparr>store = store3, locks = []\<rparr>"
  have r: "reachable ?l"
    unfolding example_level [symmetric] by (intro reachable_start reachable_put)
  have iso: "\<forall>p. posted (store ?l) p \<longrightarrow> isoDate (date p)"
    using posted_store3 example_dates by auto
  from oldestPosts_limited_descending [of ?l 2] r iso
  have "\<exists>ps. oldestPosts None ?l 2 = [Ok (map (\<lambda>p. VSummary (summary.truncate p)) ps)]
         \<and> length ps \<le> 2
         \<and> (\<forall>p\<in>set ps. posted (store ?l) p)
         \<and> sorted_wrt (\<lambda>p q. date q \<le> date p) ps"
    by (elim conjE impE) (rule conjI)
  then have "\<exists>ps :: post list.
        oldestPosts None ?l 2 = [Ok (map (\<lambda>p. VSummary (summary.truncate p)) ps)]
        \<and> length ps \<le> 2 \<and> sorted_wrt (\<lambda>p q. date q \<le> date p) ps"
    by blast
  with r example_dates show ?thesis by blast
qed

end
